theory Spec2Isabelle
  imports Complex_Main
begin

section \<open>The calculator: shunting-yard conversion and postfix evaluation\<close>

text \<open>
  A shallow embedding of \<^verbatim>\<open>calculator.cpp\<close> (namespace \<^verbatim>\<open>Calculator\<close>).

  Conventions of the embedding:
  \<^item> \<^verbatim>\<open>abort()\<close>, a failing \<^verbatim>\<open>assert\<close> (the program is built with assertions
    enabled, as its own self-test needs them) and an access outside a vector are the three
    ways a call does not return a number; they are the values of the type \<open>error\<close>,
    and every function that can reach one returns \<open>error + 'a\<close>.
  \<^item> \<^verbatim>\<open>Symbol\<close> is an enumeration whose enumerators are character codes, and values
    of it are only ever made by casting a character of the input, so a symbol is a
    \<open>char\<close>.
  \<^item> The pointers \<^verbatim>\<open>start\<close> and \<^verbatim>\<open>end\<close> of a \<^verbatim>\<open>Part\<close> point into the
    buffer of the input string, which is never written; they are modelled by their
    offsets from \<^verbatim>\<open>s.data()\<close>.
  \<^item> A \<^verbatim>\<open>std::vector\<close> is a list in the vector's order: \<^verbatim>\<open>emplace_back\<close>
    appends at the end, \<^verbatim>\<open>back()\<close> is \<open>last\<close>, \<^verbatim>\<open>pop_back()\<close> is
    \<open>butlast\<close>.
  \<^item> The index \<^verbatim>\<open>int i\<close> is a natural number: it never goes below zero, and the
    inputs considered are shorter than \<open>2^31\<close> characters.
  \<^item> \<^verbatim>\<open>double\<close>, its arithmetic, \<^verbatim>\<open>fmod\<close>, \<^verbatim>\<open>pow\<close> and
    \<^verbatim>\<open>std::from_chars\<close> belong to the language and its library, not to this program.
    They are a parameter of the model (the record \<open>fpu\<close>), so that what is proved
    for every \<open>fpu\<close> holds for the machine's arithmetic in particular.
    \<open>from_chars fp t\<close> is the value that \<^verbatim>\<open>std::from_chars\<close> leaves in its
    result argument for the span \<open>t\<close>; a literal too long for a \<^verbatim>\<open>double\<close>, for
    which the library reports an error that the program does not look at, is not told
    apart.
\<close>

subsection \<open>Outcomes other than a result\<close>

datatype error =
    Abort              \<comment> \<open>a call of \<^verbatim>\<open>abort()\<close>\<close>
  | AssertionFailed    \<comment> \<open>an \<^verbatim>\<open>assert\<close> whose condition is false\<close>
  | OutOfBounds        \<comment> \<open>an element access outside a vector: undefined behaviour\<close>

subsection \<open>Symbols and their classification\<close>

type_synonym Symbol = char

text \<open>
  The enumerators of \<^verbatim>\<open>SymbolType\<close> and of \<^verbatim>\<open>Associativity\<close>; the prefix stands for
  the scope of the C++ name (\<^verbatim>\<open>SymbolType::val\<close> is \<open>st_val\<close>).
\<close>

datatype SymbolType = st_null | st_val | st_opr | st_open | st_close | st_period | st_blank

datatype Associativity = assoc_left | assoc_right

definition type :: "Symbol \<Rightarrow> error + SymbolType" where
  "type symb =
     (if symb \<in> set ''0123456789'' then Inr st_val
      else if symb \<in> set ''+-*/^%'' then Inr st_opr
      else if symb = CHR ''('' then Inr st_open
      else if symb = CHR '')'' then Inr st_close
      else if symb = CHR ''.'' then Inr st_period
      else if symb = CHR '' '' \<or> symb = CHR 0x0A \<or> symb = CHR 0x09 then Inr st_blank
      else Inl Abort)"

definition prec :: "Symbol \<Rightarrow> error + int" where
  "prec op =
     (if op = CHR ''^'' then Inr 1
      else if op = CHR ''*'' \<or> op = CHR ''/'' \<or> op = CHR ''%'' then Inr 2
      else if op = CHR ''+'' \<or> op = CHR ''-'' then Inr 3
      else Inl Abort)"

definition associa :: "Symbol \<Rightarrow> error + Associativity" where
  "associa op =
     (if op = CHR ''^'' then Inr assoc_right
      else if op = CHR ''+'' \<or> op = CHR ''-'' \<or> op = CHR ''*'' \<or> op = CHR ''/'' \<or> op = CHR ''%''
        then Inr assoc_left
      else Inl Abort)"

subsection \<open>Parts of the expression\<close>

text \<open>
  \<^verbatim>\<open>struct Part\<close>: \<open>start\<close> and \<open>endp\<close> are offsets into the input, \<open>endp\<close>
  one past the last character of the part, \<open>symbol\<close> the character at \<open>start\<close>.
\<close>

record Part =
  start :: nat
  endp :: nat
  symbol :: Symbol

text \<open>
  The loop of the value constructor \<^verbatim>\<open>Part(s, start, end)\<close>: \<open>end\<close> advances over
  digits and over at most one period. The classification of the character that ends the
  literal is computed too, so a character outside the alphabet aborts here.
\<close>

function Part_scan :: "string \<Rightarrow> nat \<Rightarrow> bool \<Rightarrow> error + nat" where
  "Part_scan s end notFloatingPoint =
     (if end < length s then
        (case type (s ! end) of
           Inl e \<Rightarrow> Inl e
         | Inr st_val \<Rightarrow> Part_scan s (end + 1) notFloatingPoint
         | Inr st_period \<Rightarrow>
             if notFloatingPoint then Part_scan s (end + 1) False else Inl Abort
         | Inr _ \<Rightarrow> Inr end)
      else Inr end)"
  by pat_completeness auto
termination
  by (relation "measure (\<lambda>(s, end, nfp). length s - end)") auto

declare Part_scan.simps [simp del]

text \<open>
  The value constructor returns the part and the new value of its reference argument
  \<^verbatim>\<open>end\<close>, which is the offset of the last character of the literal.
\<close>

definition Part_val :: "string \<Rightarrow> nat \<Rightarrow> nat \<Rightarrow> error + (Part \<times> nat)" where
  "Part_val s start0 end0 =
     (case Part_scan s end0 True of
        Inl e \<Rightarrow> Inl e
      | Inr end1 \<Rightarrow> Inr (\<lparr>start = start0, endp = end1, symbol = s ! start0\<rparr>, end1 - 1))"

text \<open>The operator constructor \<^verbatim>\<open>Part(s, start)\<close>.\<close>

definition Part_opr :: "string \<Rightarrow> nat \<Rightarrow> Part" where
  "Part_opr s start0 = \<lparr>start = start0, endp = start0 + 1, symbol = s ! start0\<rparr>"

subsection \<open>Floating point as a parameter\<close>

record 'd fpu =
  from_chars :: "string \<Rightarrow> 'd"   \<comment> \<open>the value \<^verbatim>\<open>std::from_chars\<close> stores for a span\<close>
  f_add :: "'d \<Rightarrow> 'd \<Rightarrow> 'd"
  f_sub :: "'d \<Rightarrow> 'd \<Rightarrow> 'd"
  f_mul :: "'d \<Rightarrow> 'd \<Rightarrow> 'd"
  f_div :: "'d \<Rightarrow> 'd \<Rightarrow> 'd"
  f_fmod :: "'d \<Rightarrow> 'd \<Rightarrow> 'd"
  f_pow :: "'d \<Rightarrow> 'd \<Rightarrow> 'd"

text \<open>\<^verbatim>\<open>Part::computeVal\<close>: the characters from \<open>start\<close> up to \<open>endp\<close>, converted.\<close>

definition Part_span :: "string \<Rightarrow> Part \<Rightarrow> string" where
  "Part_span s p = take (endp p - start p) (drop (start p) s)"

definition computeVal :: "'d fpu \<Rightarrow> string \<Rightarrow> Part \<Rightarrow> 'd" where
  "computeVal fp s p = from_chars fp (Part_span s p)"

text \<open>\<^verbatim>\<open>applyOperator(a, b, opr)\<close>; the result is the new value of \<^verbatim>\<open>a\<close>.\<close>

definition applyOperator :: "'d fpu \<Rightarrow> 'd \<Rightarrow> 'd \<Rightarrow> Symbol \<Rightarrow> error + 'd" where
  "applyOperator fp a b opr =
     (if opr = CHR ''+'' then Inr (f_add fp a b)
      else if opr = CHR ''-'' then Inr (f_sub fp a b)
      else if opr = CHR ''*'' then Inr (f_mul fp a b)
      else if opr = CHR ''/'' then Inr (f_div fp a b)
      else if opr = CHR ''%'' then Inr (f_fmod fp a b)
      else if opr = CHR ''^'' then Inr (f_pow fp a b)
      else Inl Abort)"

subsection \<open>Infix to postfix: \<^verbatim>\<open>rpn\<close>\<close>

text \<open>
  The \<^verbatim>\<open>while\<close> loop of the operator case: operators on top of the stack that bind
  tighter than \<open>symb\<close>, or as tight when \<open>symb\<close> is left-associative, move to the
  output.
\<close>

function pop_opr :: "Symbol \<Rightarrow> Part list \<Rightarrow> Part list \<Rightarrow> error + (Part list \<times> Part list)" where
  "pop_opr symb expr oprs =
     (if oprs \<noteq> [] \<and> symbol (last oprs) \<noteq> CHR ''('' then
        (case prec (symbol (last oprs)) of
           Inl e \<Rightarrow> Inl e
         | Inr ptop \<Rightarrow>
            (case prec symb of
               Inl e \<Rightarrow> Inl e
             | Inr psym \<Rightarrow>
                 if ptop < psym then pop_opr symb (expr @ [last oprs]) (butlast oprs)
                 else
                   (case associa symb of
                      Inl e \<Rightarrow> Inl e
                    | Inr a \<Rightarrow>
                        if a = assoc_left \<and> ptop = psym
                        then pop_opr symb (expr @ [last oprs]) (butlast oprs)
                        else Inr (expr, oprs))))
      else Inr (expr, oprs))"
  by pat_completeness auto
termination
  by (relation "measure (\<lambda>(symb, expr, oprs). length oprs)") auto

declare pop_opr.simps [simp del]

text \<open>
  The close-parenthesis case: its \<^verbatim>\<open>while\<close> loop, the two assertions, and the
  \<^verbatim>\<open>pop_back\<close> of the open-parenthesis marker.
\<close>

function pop_close :: "Part list \<Rightarrow> Part list \<Rightarrow> error + (Part list \<times> Part list)" where
  "pop_close expr oprs =
     (if oprs \<noteq> [] \<and> symbol (last oprs) \<noteq> CHR ''('' then
        pop_close (expr @ [last oprs]) (butlast oprs)
      else if oprs = [] then Inl AssertionFailed
      else if symbol (last oprs) \<noteq> CHR ''('' then Inl AssertionFailed
      else Inr (expr, butlast oprs))"
  by pat_completeness auto
termination
  by (relation "measure (\<lambda>(expr, oprs). length oprs)") auto

declare pop_close.simps [simp del]

text \<open>The \<^verbatim>\<open>while\<close> loop after the scan: the stack is emptied into the output.\<close>

function pop_all :: "Part list \<Rightarrow> Part list \<Rightarrow> error + Part list" where
  "pop_all expr oprs =
     (if oprs \<noteq> [] then
        (if symbol (last oprs) \<noteq> CHR ''('' then pop_all (expr @ [last oprs]) (butlast oprs)
         else Inl AssertionFailed)
      else Inr expr)"
  by pat_completeness auto
termination
  by (relation "measure (\<lambda>(expr, oprs). length oprs)") auto

declare pop_all.simps [simp del]

text \<open>
  The \<^verbatim>\<open>for\<close> loop of \<^verbatim>\<open>rpn\<close> from index \<open>i\<close>, with the output \<open>expr\<close> and
  the operator stack \<open>oprs\<close>. The value constructor moves \<open>i\<close> to the last character
  of the literal, and the loop's \<^verbatim>\<open>i++\<close> follows every case.
\<close>

function rpn_loop :: "string \<Rightarrow> nat \<Rightarrow> Part list \<Rightarrow> Part list \<Rightarrow> error + (Part list \<times> Part list)" where
  "rpn_loop s i expr oprs =
     (if i < length s then
        (case type (s ! i) of
           Inl e \<Rightarrow> Inl e
         | Inr st_val \<Rightarrow>
            (case Part_val s i i of
               Inl e \<Rightarrow> Inl e
             | Inr (p, i') \<Rightarrow> rpn_loop s (i' + 1) (expr @ [p]) oprs)
         | Inr st_opr \<Rightarrow>
            (case pop_opr (s ! i) expr oprs of
               Inl e \<Rightarrow> Inl e
             | Inr (expr', oprs') \<Rightarrow> rpn_loop s (i + 1) expr' (oprs' @ [Part_opr s i]))
         | Inr st_open \<Rightarrow> rpn_loop s (i + 1) expr (oprs @ [Part_opr s i])
         | Inr st_close \<Rightarrow>
            (case pop_close expr oprs of
               Inl e \<Rightarrow> Inl e
             | Inr (expr', oprs') \<Rightarrow> rpn_loop s (i + 1) expr' oprs')
         | Inr st_blank \<Rightarrow> rpn_loop s (i + 1) expr oprs
         | Inr _ \<Rightarrow> Inl Abort)
      else Inr (expr, oprs))"
  by pat_completeness auto
termination
proof -
  have mono: "Part_scan s e nfp = Inr e' \<Longrightarrow> e \<le> e'" for s e nfp e'
  proof (induction s e nfp rule: Part_scan.induct)
    case (1 s e nfp)
    show ?case
    proof (cases "e < length s")
      case False
      with "1.prems" show ?thesis by (simp add: Part_scan.simps [of s e nfp])
    next
      case True
      show ?thesis
      proof (cases "type (s ! e)")
        case (Inl err)
        with True "1.prems" show ?thesis by (simp add: Part_scan.simps [of s e nfp])
      next
        case (Inr t)
        with True "1.prems" "1.IH" show ?thesis
          by (cases t) (auto simp: Part_scan.simps [of s e nfp] split: if_splits dest: Suc_leD)
      qed
    qed
  qed
  have advances: "i \<le> i'"
    if "i < length s" and "type (s ! i) = Inr st_val" and "Part_val s i i = Inr (p, i')"
    for s i p i'
  proof -
    from that(3) obtain e where e: "Part_scan s i True = Inr e" and i': "i' = e - 1"
      by (auto simp: Part_val_def split: sum.splits)
    from e that(1,2) have "Part_scan s (i + 1) True = Inr e"
      by (simp add: Part_scan.simps [of s i True])
    then have "i + 1 \<le> e" by (rule mono)
    with i' show ?thesis by simp
  qed
  show ?thesis
  proof (relation "measure (\<lambda>(s, i, expr, oprs). length s - i)", goal_cases)
    case 1
    show ?case by simp
  next
    case (2 s i expr oprs t x p i')
    then have "i \<le> i'" using advances [of i s p i'] by simp
    with 2 show ?case by simp
  qed auto
qed

declare rpn_loop.simps [simp del]

text \<open>\<^verbatim>\<open>rpn(s, expr)\<close>; the result is the new content of \<^verbatim>\<open>expr\<close>.\<close>

definition rpn :: "string \<Rightarrow> Part list \<Rightarrow> error + Part list" where
  "rpn s expr =
     (case rpn_loop s 0 expr [] of
        Inl e \<Rightarrow> Inl e
      | Inr (expr', oprs) \<Rightarrow> pop_all expr' oprs)"

subsection \<open>Postfix evaluation: \<^verbatim>\<open>eval\<close>\<close>

text \<open>
  The range-\<^verbatim>\<open>for\<close> loop of \<^verbatim>\<open>eval\<close>. Its bounds are taken before the first
  iteration, so it visits every part of the postfix sequence as \<^verbatim>\<open>rpn\<close> left it; the
  \<^verbatim>\<open>expr.pop_back()\<close> of the operator case lowers the size of \<^verbatim>\<open>expr\<close> and leaves
  the stored parts (a \<^verbatim>\<open>Part\<close> has nothing to destroy) and the bounds of the loop as
  they are. The argument \<open>n\<close> is that size. The operator case reads
  \<^verbatim>\<open>evld[evld.size() - 2]\<close> and \<^verbatim>\<open>evld.back()\<close> with no check on the size; with
  fewer than two values these are outside the vector.
\<close>

fun eval_loop :: "'d fpu \<Rightarrow> string \<Rightarrow> Part list \<Rightarrow> 'd list \<Rightarrow> nat \<Rightarrow> error + 'd list" where
  "eval_loop fp s [] evld n = Inr evld"
| "eval_loop fp s (p # ps) evld n =
     (case type (symbol p) of
        Inl e \<Rightarrow> Inl e
      | Inr st_val \<Rightarrow> eval_loop fp s ps (evld @ [computeVal fp s p]) n
      | Inr st_opr \<Rightarrow>
          if length evld < 2 then Inl OutOfBounds
          else
            (case applyOperator fp (evld ! (length evld - 2)) (last evld) (symbol p) of
               Inl e \<Rightarrow> Inl e
             | Inr a \<Rightarrow> eval_loop fp s ps (butlast (evld[length evld - 2 := a])) (n - 1))
      | Inr _ \<Rightarrow> Inl Abort)"

definition eval :: "'d fpu \<Rightarrow> string \<Rightarrow> error + 'd" where
  "eval fp s =
     (case rpn s [] of
        Inl e \<Rightarrow> Inl e
      | Inr expr \<Rightarrow>
         (case eval_loop fp s expr [] (length expr) of
            Inl e \<Rightarrow> Inl e
          | Inr evld \<Rightarrow> if length evld = 1 then Inr (last evld) else Inl AssertionFailed))"

subsection \<open>Exact arithmetic\<close>

text \<open>
  The numbers the specification names (\<open>512.0\<close>, \<open>1.0\<close>, \<open>3.5\<close>, \<open>4.0\<close>) are
  results of operations that are exact in binary floating point: the literals involved
  and every intermediate value are small dyadic rationals. For them the machine's
  arithmetic coincides with the arithmetic of the reals, which \<open>exact_fpu\<close> is:
  \<open>from_chars_exact\<close> reads a span of the form digits, or digits, a period and
  digits (the only spans the value constructor makes) as the decimal number it
  writes. Where the mathematical result is not a real number (a zero divisor, a
  negative base with a fractional exponent) the value of \<open>exact_fpu\<close> has no meaning,
  and no statement below uses it there.
\<close>

definition digit_val :: "char \<Rightarrow> nat" where
  "digit_val c = of_char c - 48"

definition dec_nat :: "string \<Rightarrow> nat" where
  "dec_nat ds = foldl (\<lambda>n c. 10 * n + digit_val c) 0 ds"

definition from_chars_exact :: "string \<Rightarrow> real" where
  "from_chars_exact t =
     (let ip = takeWhile (\<lambda>c. c \<noteq> CHR ''.'') t;
          fr = drop 1 (dropWhile (\<lambda>c. c \<noteq> CHR ''.'') t)
      in real (dec_nat ip) + real (dec_nat fr) / 10 ^ length fr)"

definition fmod_exact :: "real \<Rightarrow> real \<Rightarrow> real" where
  "fmod_exact a b = a - b * (sgn (a / b) * of_int \<lfloor>\<bar>a / b\<bar>\<rfloor>)"

definition pow_exact :: "real \<Rightarrow> real \<Rightarrow> real" where
  "pow_exact x y =
     (if 0 < x then x powr y
      else if y = of_int \<lfloor>y\<rfloor>
        then (if 0 \<le> y then x ^ nat \<lfloor>y\<rfloor> else inverse (x ^ nat \<lfloor>- y\<rfloor>))
      else 0)"

definition exact_fpu :: "real fpu" where
  "exact_fpu = \<lparr>from_chars = from_chars_exact, f_add = (+), f_sub = (-), f_mul = (*),
     f_div = (/), f_fmod = fmod_exact, f_pow = pow_exact\<rparr>"

subsection \<open>Notions used in the statements\<close>

text \<open>
  A literal, as the value constructor accepts it: a digit, then digits and periods, with at
  most one period. This includes every \<open>number\<close> of the published grammar. A literal
  ends where the rest of the input \<open>stops\<close> it: at the end of the input or at a
  character of the alphabet that is neither a digit nor a period.
\<close>

definition digit_or_period :: "char \<Rightarrow> bool" where
  "digit_or_period c \<longleftrightarrow> type c = Inr st_val \<or> type c = Inr st_period"

definition periods :: "string \<Rightarrow> nat" where
  "periods a = length (filter (\<lambda>c. c = CHR ''.'') a)"

definition literal :: "string \<Rightarrow> bool" where
  "literal a \<longleftrightarrow>
     a \<noteq> [] \<and> type (hd a) = Inr st_val \<and> list_all digit_or_period a \<and> periods a \<le> 1"

definition stops :: "string \<Rightarrow> bool" where
  "stops rest \<longleftrightarrow>
     (case rest of [] \<Rightarrow> True | c # _ \<Rightarrow> \<not> digit_or_period c \<and> type c \<noteq> Inl Abort)"

text \<open>
  The scan of the input \<open>pre @ rest\<close> when it stands at the first character of
  \<open>rest\<close>.
\<close>

definition rpn_at :: "string \<Rightarrow> string \<Rightarrow> Part list \<Rightarrow> Part list \<Rightarrow> error + (Part list \<times> Part list)" where
  "rpn_at pre rest expr oprs = rpn_loop (pre @ rest) (length pre) expr oprs"

text \<open>
  The kinds of parts: what the output may hold, and what the operator stack may hold.
\<close>

definition Number_or_Operator :: "Part \<Rightarrow> bool" where
  "Number_or_Operator p \<longleftrightarrow> type (symbol p) = Inr st_val \<or> type (symbol p) = Inr st_opr"

definition Operator_or_open :: "Part \<Rightarrow> bool" where
  "Operator_or_open p \<longleftrightarrow> type (symbol p) = Inr st_opr \<or> symbol p = CHR ''(''"

text \<open>
  Balance of parentheses, read off the input alone: \<open>paren_depth cs n\<close> is the number
  of parentheses left open after \<open>cs\<close> when \<open>n\<close> were open before it, and \<open>None\<close>
  when \<open>cs\<close> closes one that is not open. \<open>opens\<close> counts the open-parenthesis
  markers on the operator stack.
\<close>

fun paren_depth :: "string \<Rightarrow> nat \<Rightarrow> nat option" where
  "paren_depth [] n = Some n"
| "paren_depth (c # cs) n =
     (if c = CHR ''('' then paren_depth cs (n + 1)
      else if c = CHR '')'' then (if n = 0 then None else paren_depth cs (n - 1))
      else paren_depth cs n)"

definition balanced :: "string \<Rightarrow> bool" where
  "balanced s \<longleftrightarrow> paren_depth s 0 = Some 0"

definition opens :: "Part list \<Rightarrow> nat" where
  "opens oprs = length (filter (\<lambda>p. symbol p = CHR ''('') oprs)"


text \<open>
  Well-formed infix expressions: a literal; two expressions with a binary operator
  between them; an expression in parentheses; blanks before or after an expression.
  Precedence and associativity are not part of the grammar, the conversion resolves them.
\<close>

inductive well_formed :: "string \<Rightarrow> bool" where
  wf_literal: "literal a \<Longrightarrow> well_formed a"
| wf_binary: "well_formed a \<Longrightarrow> type c = Inr st_opr \<Longrightarrow> well_formed b \<Longrightarrow> well_formed (a @ c # b)"
| wf_parens: "well_formed a \<Longrightarrow> well_formed (CHR ''('' # a @ '')'')"
| wf_blank_before: "type c = Inr st_blank \<Longrightarrow> well_formed a \<Longrightarrow> well_formed (c # a)"
| wf_blank_after: "well_formed a \<Longrightarrow> type c = Inr st_blank \<Longrightarrow> well_formed (a @ [c])"

text \<open>
  The size of the value stack of \<^verbatim>\<open>eval\<close> after a postfix sequence, from size
  \<open>d\<close>: a Number adds a value, an Operator needs two and leaves one; \<open>None\<close> when
  an Operator finds fewer than two or a part is neither.
\<close>

fun stack_depth :: "Part list \<Rightarrow> nat \<Rightarrow> nat option" where
  "stack_depth [] d = Some d"
| "stack_depth (p # ps) d =
     (case type (symbol p) of
        Inr st_val \<Rightarrow> stack_depth ps (d + 1)
      | Inr st_opr \<Rightarrow> if d < 2 then None else stack_depth ps (d - 1)
      | _ \<Rightarrow> None)"

text \<open>
  The operator stack during the scan of a sub-expression: operators only, on top of a
  part of the stack that is empty or ends with an open-parenthesis marker.
\<close>

definition Operator :: "Part \<Rightarrow> bool" where
  "Operator p \<longleftrightarrow> type (symbol p) = Inr st_opr"

definition below_open :: "Part list \<Rightarrow> bool" where
  "below_open base \<longleftrightarrow> base = [] \<or> symbol (last base) = CHR ''(''"


text \<open>
  What \<^verbatim>\<open>std::from_chars\<close> promises for a literal whose decimal value a
  \<^verbatim>\<open>double\<close> can hold: that value. \<open>is_double\<close> are the finite values of the
  binary64 format, and \<open>exact_on_doubles\<close> is said of an arithmetic over the reals whose
  \<open>from_chars\<close> keeps the promise; a correctly rounding conversion does.
\<close>

definition is_double :: "real \<Rightarrow> bool" where
  "is_double x \<longleftrightarrow>
     (\<exists>m e. x = of_int m * 2 powi e \<and> \<bar>m\<bar> < 2 ^ 53 \<and> - 1074 \<le> e \<and> e \<le> 971)"

definition exact_on_doubles :: "real fpu \<Rightarrow> bool" where
  "exact_on_doubles fp \<longleftrightarrow>
     (\<forall>t. literal t \<and> is_double (from_chars_exact t) \<longrightarrow> from_chars fp t = from_chars_exact t)"

section \<open>Properties\<close>

subsection \<open>Running the program on a given input\<close>

lemmas run_simps =
  eval_def rpn_def rpn_loop.simps type_def Part_val_def Part_scan.simps pop_opr.simps
  pop_close.simps pop_all.simps Part_opr_def prec_def associa_def computeVal_def Part_span_def
  applyOperator_def

lemmas exact_simps =
  exact_fpu_def from_chars_exact_def dec_nat_def digit_val_def pow_exact_def fmod_exact_def



lemma eval_3_period_plus_1:
  "eval fp ''3.+1'' = Inr (f_add fp (from_chars fp ''3.'') (from_chars fp ''1''))"
  by (simp add: run_simps)

subsection \<open>The classification of characters\<close>

lemma type_error: "type c = Inl e \<Longrightarrow> e = Abort"
  by (auto simp: type_def split: if_splits)

lemma type_period_iff: "type c = Inr st_period \<longleftrightarrow> c = CHR ''.''"
  by (auto simp: type_def split: if_splits)

lemma type_open_iff: "type c = Inr st_open \<longleftrightarrow> c = CHR ''(''"
  by (auto simp: type_def split: if_splits)

lemma type_close_iff: "type c = Inr st_close \<longleftrightarrow> c = CHR '')''"
  by (auto simp: type_def split: if_splits)

subsection \<open>The scan of a literal\<close>

text \<open>
  What the loop of the value constructor returns: the offset after the longest run of
  digits and periods, unless the run has a second period or the character after it is
  outside the alphabet.
\<close>

lemma Part_scan_run:
  "Part_scan s e nfp =
     (let run = takeWhile digit_or_period (drop e s); j = e + length run
      in if periods run \<le> (if nfp then 1 else 0) \<and> (j < length s \<longrightarrow> type (s ! j) \<noteq> Inl Abort)
         then Inr j else Inl Abort)"
proof (induction s e nfp rule: Part_scan.induct)
  case (1 s e nfp)
  show ?case
  proof (cases "e < length s")
    case False
    then show ?thesis by (simp add: Part_scan.simps [of s e] periods_def)
  next
    case True
    then have d: "drop e s = s ! e # drop (e + 1) s"
      by (simp add: Cons_nth_drop_Suc)
    show ?thesis
    proof (cases "type (s ! e)")
      case (Inl err)
      then have "err = Abort" by (rule type_error)
      with Inl True d show ?thesis
        by (simp add: Part_scan.simps [of s e] digit_or_period_def periods_def)
    next
      case (Inr t)
      show ?thesis
      proof (cases t)
        case st_val
        with Inr have ne: "s ! e \<noteq> CHR ''.''" by (auto simp: type_def)
        from st_val Inr True "1.IH"(1) [of st_val] d ne show ?thesis
          by (simp add: Part_scan.simps [of s e] digit_or_period_def periods_def Let_def)
      next
        case st_period
        with Inr have eq: "s ! e = CHR ''.''" by (simp add: type_period_iff)
        show ?thesis
        proof (cases nfp)
          case True
          with st_period Inr \<open>e < length s\<close> "1.IH"(2) [of st_period] d eq show ?thesis
            by (simp add: Part_scan.simps [of s e] digit_or_period_def periods_def Let_def)
        next
          case False
          with st_period Inr \<open>e < length s\<close> d eq show ?thesis
            by (simp add: Part_scan.simps [of s e] digit_or_period_def periods_def Let_def)
        qed
      qed (use Inr True d in \<open>simp_all add: Part_scan.simps [of s e] digit_or_period_def periods_def\<close>)
    qed
  qed
qed

lemma rpn_loop_val:
  assumes "i < length s" and "type (s ! i) = Inr st_val"
  shows "rpn_loop s i expr oprs =
     (let run = takeWhile digit_or_period (drop i s); j = i + length run
      in if periods run \<le> 1 \<and> (j < length s \<longrightarrow> type (s ! j) \<noteq> Inl Abort)
         then rpn_loop s j (expr @ [\<lparr>start = i, endp = j, symbol = s ! i\<rparr>]) oprs
         else Inl Abort)"
proof -
  from assms have "drop i s = s ! i # drop (i + 1) s"
    by (simp add: Cons_nth_drop_Suc)
  with assms(2) have "0 < length (takeWhile digit_or_period (drop i s))"
    by (simp add: digit_or_period_def)
  with assms show ?thesis
    by (auto simp: rpn_loop.simps [of s i] Part_val_def Part_scan_run [of s i True] Let_def)
qed

subsection \<open>Steps of the scan\<close>

lemma rpn_at_Nil: "rpn_at pre [] expr oprs = Inr (expr, oprs)"
  by (simp add: rpn_at_def rpn_loop.simps [of pre])

lemma rpn_at_unknown: "type c = Inl e \<Longrightarrow> rpn_at pre (c # rest) expr oprs = Inl e"
  by (simp add: rpn_at_def rpn_loop.simps [of "pre @ c # rest" "length pre"] split: sum.split prod.split)

lemma rpn_at_period: "type c = Inr st_period \<Longrightarrow> rpn_at pre (c # rest) expr oprs = Inl Abort"
  by (simp add: rpn_at_def rpn_loop.simps [of "pre @ c # rest" "length pre"] split: sum.split prod.split)

lemma rpn_at_blank:
  "type c = Inr st_blank \<Longrightarrow> rpn_at pre (c # rest) expr oprs = rpn_at (pre @ [c]) rest expr oprs"
  by (simp add: rpn_at_def rpn_loop.simps [of "pre @ c # rest" "length pre"] split: sum.split prod.split)

lemma rpn_at_open:
  "type c = Inr st_open \<Longrightarrow>
   rpn_at pre (c # rest) expr oprs =
   rpn_at (pre @ [c]) rest expr (oprs @ [\<lparr>start = length pre, endp = length pre + 1, symbol = c\<rparr>])"
  by (simp add: rpn_at_def rpn_loop.simps [of "pre @ c # rest" "length pre"] Part_opr_def split: sum.split prod.split)

lemma rpn_at_opr:
  "type c = Inr st_opr \<Longrightarrow>
   rpn_at pre (c # rest) expr oprs =
   (case pop_opr c expr oprs of
      Inl e \<Rightarrow> Inl e
    | Inr (expr', oprs') \<Rightarrow>
        rpn_at (pre @ [c]) rest expr'
          (oprs' @ [\<lparr>start = length pre, endp = length pre + 1, symbol = c\<rparr>]))"
  by (simp add: rpn_at_def rpn_loop.simps [of "pre @ c # rest" "length pre"] Part_opr_def split: sum.split prod.split)

lemma rpn_at_close:
  "type c = Inr st_close \<Longrightarrow>
   rpn_at pre (c # rest) expr oprs =
   (case pop_close expr oprs of
      Inl e \<Rightarrow> Inl e
    | Inr (expr', oprs') \<Rightarrow> rpn_at (pre @ [c]) rest expr' oprs')"
  by (simp add: rpn_at_def rpn_loop.simps [of "pre @ c # rest" "length pre"] split: sum.split prod.split)

lemma takeWhile_literal:
  assumes "list_all digit_or_period a" and "stops rest"
  shows "takeWhile digit_or_period (a @ rest) = a"
proof -
  from assms(2) have "takeWhile digit_or_period rest = []"
    by (cases rest) (simp_all add: stops_def)
  with assms(1) show ?thesis
    by (simp add: list_all_iff)
qed

lemma rpn_at_literal:
  assumes "literal a" and "stops rest"
  shows "rpn_at pre (a @ rest) expr oprs =
         rpn_at (pre @ a) rest
           (expr @ [\<lparr>start = length pre, endp = length pre + length a, symbol = hd a\<rparr>]) oprs"
proof -
  let ?s = "pre @ a @ rest"
  from assms(1) have a: "a \<noteq> []" "type (hd a) = Inr st_val" "list_all digit_or_period a" "periods a \<le> 1"
    by (simp_all add: literal_def)
  from a(1) have i: "length pre < length ?s" by simp
  from a(1) have hd: "?s ! length pre = hd a" by (cases a) simp_all
  have run: "takeWhile digit_or_period (drop (length pre) ?s) = a"
    using takeWhile_literal [OF a(3) assms(2)] by simp
  have nxt: "length pre + length a < length ?s \<longrightarrow> type (?s ! (length pre + length a)) \<noteq> Inl Abort"
  proof (cases rest)
    case Nil
    then show ?thesis by simp
  next
    case (Cons c r)
    with assms(2) have "type c \<noteq> Inl Abort" by (simp add: stops_def)
    moreover have "?s ! (length pre + length a) = c"
      using Cons by (simp add: nth_append)
    ultimately show ?thesis by simp
  qed
  show ?thesis
    using rpn_loop_val [of "length pre" ?s expr oprs] i hd a(2,4) run nxt
    by (simp add: rpn_at_def Let_def)
qed

lemma rpn_at_literal_end:
  assumes "literal a"
  shows "rpn_at pre a expr oprs =
         Inr (expr @ [\<lparr>start = length pre, endp = length pre + length a, symbol = hd a\<rparr>], oprs)"
  using rpn_at_literal [OF assms, of "[]" pre expr oprs] by (simp add: stops_def rpn_at_Nil)

lemma rpn_via_rpn_at:
  "rpn s expr = (case rpn_at [] s expr [] of Inl e \<Rightarrow> Inl e | Inr (expr', oprs) \<Rightarrow> pop_all expr' oprs)"
  by (simp add: rpn_def rpn_at_def)

lemma literal_type_hd: "literal a \<Longrightarrow> type (hd a) = Inr st_val"
  by (simp add: literal_def)

lemma Part_span_at:
  "Part_span (pre @ a @ rest) \<lparr>start = length pre, endp = length pre + length a, symbol = c\<rparr> = a"
  by (simp add: Part_span_def)


subsection \<open>Multiplication before addition\<close>

lemma C2_left:
  assumes "literal a" "literal b" "literal c"
  shows "eval fp (a @ '' + '' @ b @ '' * '' @ c) =
         Inr (f_add fp (from_chars fp a) (f_mul fp (from_chars fp b) (from_chars fp c)))"
proof -
  let ?s = "a @ '' + '' @ b @ '' * '' @ c"
  let ?A = "\<lparr>start = 0, endp = length a, symbol = hd a\<rparr>"
  let ?B = "\<lparr>start = length a + 3, endp = length a + 3 + length b, symbol = hd b\<rparr>"
  let ?C = "\<lparr>start = length a + length b + 6, endp = length a + length b + 6 + length c, symbol = hd c\<rparr>"
  let ?add = "\<lparr>start = length a + 1, endp = length a + 2, symbol = CHR ''+''\<rparr>"
  let ?mul = "\<lparr>start = length a + length b + 4, endp = length a + length b + 5, symbol = CHR ''*''\<rparr>"
  have r: "rpn ?s [] = Inr [?A, ?B, ?C, ?mul, ?add]"
    using assms
    by (simp add: rpn_via_rpn_at rpn_at_literal rpn_at_literal_end rpn_at_blank rpn_at_opr
        stops_def digit_or_period_def type_def [of "CHR '' ''"] type_def [of "CHR ''+''"]
        type_def [of "CHR ''*''"] pop_opr.simps pop_all.simps prec_def associa_def add_ac)
  have sa: "Part_span ?s ?A = a"
    using Part_span_at [of "[]" a] by simp
  have sb: "Part_span ?s ?B = b"
    using Part_span_at [of "a @ '' + ''" b "'' * '' @ c" "hd b"] by (simp add: numeral_eq_Suc)
  have sc: "Part_span ?s ?C = c"
    using Part_span_at [of "a @ '' + '' @ b @ '' * ''" c "[]" "hd c"] by (simp add: numeral_eq_Suc add_ac)
  show ?thesis
    unfolding eval_def r
    using assms sa sb sc
    by (simp add: literal_type_hd computeVal_def applyOperator_def
        type_def [of "CHR ''+''"] type_def [of "CHR ''*''"])
qed

lemma C2_right:
  assumes "literal a" "literal b" "literal c"
  shows "eval fp (a @ '' + ('' @ b @ '' * '' @ c @ '')'') =
         Inr (f_add fp (from_chars fp a) (f_mul fp (from_chars fp b) (from_chars fp c)))"
proof -
  let ?s = "a @ '' + ('' @ b @ '' * '' @ c @ '')''"
  let ?A = "\<lparr>start = 0, endp = length a, symbol = hd a\<rparr>"
  let ?B = "\<lparr>start = length a + 4, endp = length a + 4 + length b, symbol = hd b\<rparr>"
  let ?C = "\<lparr>start = length a + length b + 7, endp = length a + length b + 7 + length c, symbol = hd c\<rparr>"
  let ?add = "\<lparr>start = length a + 1, endp = length a + 2, symbol = CHR ''+''\<rparr>"
  let ?mul = "\<lparr>start = length a + length b + 5, endp = length a + length b + 6, symbol = CHR ''*''\<rparr>"
  have r: "rpn ?s [] = Inr [?A, ?B, ?C, ?mul, ?add]"
    using assms
    by (simp add: rpn_via_rpn_at rpn_at_literal rpn_at_Nil rpn_at_blank rpn_at_opr
        rpn_at_open rpn_at_close
        stops_def digit_or_period_def type_def [of "CHR '' ''"] type_def [of "CHR ''+''"]
        type_def [of "CHR ''*''"] type_def [of "CHR ''(''"] type_def [of "CHR '')''"]
        pop_opr.simps pop_close.simps pop_all.simps prec_def associa_def add_ac)
  have sa: "Part_span ?s ?A = a"
    using Part_span_at [of "[]" a] by simp
  have sb: "Part_span ?s ?B = b"
    using Part_span_at [of "a @ '' + (''" b "'' * '' @ c @ '')''" "hd b"]
    by (simp add: numeral_eq_Suc)
  have sc: "Part_span ?s ?C = c"
    using Part_span_at [of "a @ '' + ('' @ b @ '' * ''" c "'')''" "hd c"]
    by (simp add: numeral_eq_Suc add_ac)
  show ?thesis
    unfolding eval_def r
    using assms sa sb sc
    by (simp add: literal_type_hd computeVal_def applyOperator_def
        type_def [of "CHR ''+''"] type_def [of "CHR ''*''"])
qed

lemma C2_product_first:
  assumes "literal a" "literal b" "literal c"
  shows "eval fp (a @ '' * '' @ b @ '' + '' @ c) =
         Inr (f_add fp (f_mul fp (from_chars fp a) (from_chars fp b)) (from_chars fp c))"
proof -
  let ?s = "a @ '' * '' @ b @ '' + '' @ c"
  let ?A = "\<lparr>start = 0, endp = length a, symbol = hd a\<rparr>"
  let ?B = "\<lparr>start = length a + 3, endp = length a + 3 + length b, symbol = hd b\<rparr>"
  let ?C = "\<lparr>start = length a + length b + 6, endp = length a + length b + 6 + length c, symbol = hd c\<rparr>"
  let ?mul = "\<lparr>start = length a + 1, endp = length a + 2, symbol = CHR ''*''\<rparr>"
  let ?add = "\<lparr>start = length a + length b + 4, endp = length a + length b + 5, symbol = CHR ''+''\<rparr>"
  have r: "rpn ?s [] = Inr [?A, ?B, ?mul, ?C, ?add]"
    using assms
    by (simp add: rpn_via_rpn_at rpn_at_literal rpn_at_literal_end rpn_at_blank rpn_at_opr
        stops_def digit_or_period_def type_def [of "CHR '' ''"] type_def [of "CHR ''+''"]
        type_def [of "CHR ''*''"] pop_opr.simps pop_all.simps prec_def associa_def add_ac)
  have sa: "Part_span ?s ?A = a"
    using Part_span_at [of "[]" a] by simp
  have sb: "Part_span ?s ?B = b"
    using Part_span_at [of "a @ '' * ''" b "'' + '' @ c" "hd b"] by (simp add: numeral_eq_Suc)
  have sc: "Part_span ?s ?C = c"
    using Part_span_at [of "a @ '' * '' @ b @ '' + ''" c "[]" "hd c"]
    by (simp add: numeral_eq_Suc add_ac)
  show ?thesis
    unfolding eval_def r
    using assms sa sb sc
    by (simp add: literal_type_hd computeVal_def applyOperator_def
        type_def [of "CHR ''+''"] type_def [of "CHR ''*''"])
qed

lemma C2_product_first_parens:
  assumes "literal a" "literal b" "literal c"
  shows "eval fp (''('' @ a @ '' * '' @ b @ '') + '' @ c) =
         Inr (f_add fp (f_mul fp (from_chars fp a) (from_chars fp b)) (from_chars fp c))"
proof -
  let ?s = "''('' @ a @ '' * '' @ b @ '') + '' @ c"
  let ?A = "\<lparr>start = 1, endp = 1 + length a, symbol = hd a\<rparr>"
  let ?B = "\<lparr>start = length a + 4, endp = length a + 4 + length b, symbol = hd b\<rparr>"
  let ?C = "\<lparr>start = length a + length b + 8, endp = length a + length b + 8 + length c, symbol = hd c\<rparr>"
  let ?mul = "\<lparr>start = length a + 2, endp = length a + 3, symbol = CHR ''*''\<rparr>"
  let ?add = "\<lparr>start = length a + length b + 6, endp = length a + length b + 7, symbol = CHR ''+''\<rparr>"
  have r: "rpn ?s [] = Inr [?A, ?B, ?mul, ?C, ?add]"
    using assms
    by (simp add: rpn_via_rpn_at rpn_at_literal rpn_at_literal_end rpn_at_blank rpn_at_opr
        rpn_at_open rpn_at_close
        stops_def digit_or_period_def type_def [of "CHR '' ''"] type_def [of "CHR ''+''"]
        type_def [of "CHR ''*''"] type_def [of "CHR ''(''"] type_def [of "CHR '')''"]
        pop_opr.simps pop_close.simps pop_all.simps prec_def associa_def add_ac)
  have sa: "Part_span ?s ?A = a"
    using Part_span_at [of "''(''" a "'' * '' @ b @ '') + '' @ c" "hd a"] by simp
  have sb: "Part_span ?s ?B = b"
    using Part_span_at [of "''('' @ a @ '' * ''" b "'') + '' @ c" "hd b"]
    by (simp add: numeral_eq_Suc)
  have sc: "Part_span ?s ?C = c"
    using Part_span_at [of "''('' @ a @ '' * '' @ b @ '') + ''" c "[]" "hd c"]
    by (simp add: numeral_eq_Suc add_ac)
  show ?thesis
    unfolding eval_def r
    using assms sa sb sc
    by (simp add: literal_type_hd computeVal_def applyOperator_def
        type_def [of "CHR ''+''"] type_def [of "CHR ''*''"])
qed

text \<open>
  Claim C2. For all literals \<open>a\<close>, \<open>b\<close> and \<open>c\<close> and every arithmetic,
  multiplication binds tighter than addition on either side: \<open>a + b * c\<close> evaluates
  as \<open>a + (b * c)\<close> does, to the sum of \<open>a\<close> and the product of \<open>b\<close> and \<open>c\<close>,
  where the operator loop leaves \<open>+\<close> on the stack; and \<open>a * b + c\<close> evaluates as
  \<open>(a * b) + c\<close> does, to the sum of the product of \<open>a\<close> and \<open>b\<close> and of \<open>c\<close>,
  where the operator loop moves \<open>*\<close> to the output before \<open>+\<close> is pushed.
\<close>

theorem C2_multiplication_binds_tighter:
  assumes "literal a" and "literal b" and "literal c"
  shows "eval fp (a @ '' + '' @ b @ '' * '' @ c) = eval fp (a @ '' + ('' @ b @ '' * '' @ c @ '')'')
       \<and> eval fp (a @ '' + '' @ b @ '' * '' @ c) =
           Inr (f_add fp (from_chars fp a) (f_mul fp (from_chars fp b) (from_chars fp c)))
       \<and> eval fp (a @ '' * '' @ b @ '' + '' @ c) = eval fp (''('' @ a @ '' * '' @ b @ '') + '' @ c)
       \<and> eval fp (a @ '' * '' @ b @ '' + '' @ c) =
           Inr (f_add fp (f_mul fp (from_chars fp a) (from_chars fp b)) (from_chars fp c))"
  using C2_left [OF assms, of fp] C2_right [OF assms, of fp]
    C2_product_first [OF assms, of fp] C2_product_first_parens [OF assms, of fp]
  by simp

theorem C2_multiplication_binds_tighter_witness:
  "literal ''2'' \<and> literal ''3'' \<and> literal ''4''
   \<and> eval exact_fpu ''2 + 3 * 4'' = eval exact_fpu ''2 + (3 * 4)''
   \<and> eval exact_fpu ''2 + 3 * 4'' = Inr 14
   \<and> eval exact_fpu ''2 + 3 * 4'' \<noteq> Inr 20
   \<and> eval exact_fpu ''2 * 3 + 4'' = eval exact_fpu ''(2 * 3) + 4''
   \<and> eval exact_fpu ''2 * 3 + 4'' = Inr 10
   \<and> eval exact_fpu ''2 * 3 + 4'' \<noteq> Inr 14"
proof -
  have l: "literal ''2''" "literal ''3''" "literal ''4''"
    by (simp_all add: literal_def digit_or_period_def periods_def type_def)
  note t = C2_multiplication_binds_tighter [OF l, of exact_fpu]
  from t have e1: "eval exact_fpu ''2 + 3 * 4'' = eval exact_fpu ''2 + (3 * 4)''"
    by simp
  from t [THEN conjunct2, THEN conjunct1] have e2: "eval exact_fpu ''2 + 3 * 4'' = Inr 14"
    by (simp add: exact_simps)
  from t have e3: "eval exact_fpu ''2 * 3 + 4'' = eval exact_fpu ''(2 * 3) + 4''"
    by simp
  from t [THEN conjunct2, THEN conjunct2, THEN conjunct2]
  have e4: "eval exact_fpu ''2 * 3 + 4'' = Inr 10"
    by (simp add: exact_simps)
  from e2 have n2: "eval exact_fpu ''2 + 3 * 4'' \<noteq> Inr 20" by simp
  from e4 have n4: "eval exact_fpu ''2 * 3 + 4'' \<noteq> Inr 14" by simp
  from l e1 e2 n2 e3 e4 n4 show ?thesis by blast
qed



subsection \<open>An operator with fewer than two values\<close>

text \<open>
  Claim C4 says that an operator met with fewer than two values on the value stack is a
  detected fatal error. The program has no such check: on \<open>1+\<close> the postfix sequence is
  the literal and the operator, and the operator case reads
  \<^verbatim>\<open>evld[evld.size() - 2]\<close> with one value in \<^verbatim>\<open>evld\<close>, outside the vector.
\<close>

theorem C4_underflow_not_detected:
  "rpn ''1+'' [] = Inr [\<lparr>start = 0, endp = 1, symbol = CHR ''1''\<rparr>,
                        \<lparr>start = 1, endp = 2, symbol = CHR ''+''\<rparr>]
   \<and> eval fp ''1+'' = Inl OutOfBounds"
  by (simp add: run_simps)

subsection \<open>Empty and blank input\<close>

lemma rpn_loop_blanks:
  assumes "list_all (\<lambda>c. type c = Inr st_blank) s"
  shows "rpn_loop s i expr oprs = Inr (expr, oprs)"
proof (induction "length s - i" arbitrary: i)
  case 0
  then show ?case by (simp add: rpn_loop.simps [of s i])
next
  case (Suc n)
  then have i: "i < length s" and n: "n = length s - (i + 1)" by simp_all
  from i assms have "type (s ! i) = Inr st_blank" by (simp add: list_all_length)
  with i Suc.hyps(1) [OF n] show ?case
    by (simp add: rpn_loop.simps [of s i])
qed

text \<open>
  Claim C9. On an input with no character other than blanks, the empty input included,
  the postfix sequence is empty, no value is pushed, and the assertion that one value
  remains fails: there is no result.
\<close>

theorem C9_blank_input_fatal:
  assumes "list_all (\<lambda>c. type c = Inr st_blank) s"
  shows "rpn s [] = Inr [] \<and> eval fp s = Inl AssertionFailed"
proof -
  have "rpn s [] = Inr []"
    by (simp add: rpn_def rpn_loop_blanks [OF assms] pop_all.simps)
  then show ?thesis by (simp add: eval_def)
qed

theorem C9_blank_input_fatal_witness:
  "list_all (\<lambda>c. type c = Inr st_blank) []
   \<and> eval exact_fpu [] = Inl AssertionFailed
   \<and> list_all (\<lambda>c. type c = Inr st_blank) [CHR '' '', CHR 0x09, CHR 0x0A]
   \<and> eval exact_fpu [CHR '' '', CHR 0x09, CHR 0x0A] = Inl AssertionFailed"
proof -
  have e: "list_all (\<lambda>c. type c = Inr st_blank) []"
    by simp
  have b: "list_all (\<lambda>c. type c = Inr st_blank) [CHR '' '', CHR 0x09, CHR 0x0A]"
    by (simp add: type_def)
  from e b C9_blank_input_fatal [OF e, of exact_fpu] C9_blank_input_fatal [OF b, of exact_fpu]
  show ?thesis by blast
qed

subsection \<open>Decimal literals\<close>

lemma eval_literal:
  assumes "literal a"
  shows "eval fp a = Inr (from_chars fp a)"
proof -
  have r: "rpn a [] = Inr [\<lparr>start = 0, endp = length a, symbol = hd a\<rparr>]"
    using assms by (simp add: rpn_via_rpn_at rpn_at_literal_end pop_all.simps)
  have s: "Part_span a \<lparr>start = 0, endp = length a, symbol = hd a\<rparr> = a"
    by (simp add: Part_span_def)
  show ?thesis
    unfolding eval_def r using assms s
    by (simp add: literal_type_hd computeVal_def)
qed

lemma rpn_loop_two_periods:
  assumes "i < length s" and "type (s ! i) = Inr st_val"
    and "2 \<le> periods (takeWhile digit_or_period (drop i s))"
  shows "rpn_loop s i expr oprs = Inl Abort"
  using assms by (simp add: rpn_loop_val Let_def)

lemma eval_two_periods:
  assumes "a \<noteq> []" and "type (hd a) = Inr st_val" and "list_all digit_or_period a"
    and "2 \<le> periods a"
  shows "eval fp (a @ rest) = Inl Abort"
proof -
  from assms(1,2) have "type ((a @ rest) ! 0) = Inr st_val"
    by (cases a) simp_all
  moreover from assms(3) have "takeWhile digit_or_period (a @ rest) = a @ takeWhile digit_or_period rest"
    by (simp add: list_all_iff)
  then have "2 \<le> periods (takeWhile digit_or_period (drop 0 (a @ rest)))"
    using assms(4) by (simp add: periods_def)
  moreover from assms(1) have "0 < length (a @ rest)" by simp
  ultimately have "rpn_loop (a @ rest) 0 [] [] = Inl Abort"
    by (rule rpn_loop_two_periods [rotated])
  then show ?thesis by (simp add: eval_def rpn_def)
qed

subsection \<open>A literal that ends in a period\<close>

lemma digits_then_period:
  assumes "d \<noteq> []" and "list_all (\<lambda>c. type c = Inr st_val) d"
  shows "literal (d @ ''.'')" and "from_chars_exact (d @ ''.'') = from_chars_exact d"
proof -
  from assms(2) have np: "list_all (\<lambda>c. c \<noteq> CHR ''.'') d"
    by (auto simp: list_all_iff type_def)
  then have f: "filter (\<lambda>c. c = CHR ''.'') d = []"
    by (induction d) simp_all
  from assms(2) have "list_all digit_or_period d"
    by (simp add: list_all_iff digit_or_period_def)
  moreover from assms have "type (hd (d @ ''.'')) = Inr st_val"
    by (cases d) simp_all
  ultimately show "literal (d @ ''.'')"
    using f by (simp add: literal_def periods_def digit_or_period_def type_def [of "CHR ''.''"])
  from np have t1: "takeWhile (\<lambda>c. c \<noteq> CHR ''.'') (d @ ''.'') = d"
    by (simp add: list_all_iff)
  from np have t2: "dropWhile (\<lambda>c. c \<noteq> CHR ''.'') (d @ ''.'') = ''.''"
    by (simp add: list_all_iff)
  from np have t3: "takeWhile (\<lambda>c. c \<noteq> CHR ''.'') d = d"
    by (simp add: list_all_iff)
  from np have t4: "dropWhile (\<lambda>c. c \<noteq> CHR ''.'') d = []"
    by (simp add: list_all_iff)
  show "from_chars_exact (d @ ''.'') = from_chars_exact d"
    unfolding from_chars_exact_def Let_def t1 t2 t3 t4 by (simp add: dec_nat_def)
qed

text \<open>
  Claim C10. Digits followed by a period, with no digit after it, are a literal: alone
  they evaluate to what \<^verbatim>\<open>std::from_chars\<close> makes of them, period included, which in
  exact arithmetic is the value of the digits. In \<open>3.+1\<close> the characters \<open>3.\<close> are one
  Number part, and the input evaluates to the sum of the values of \<open>3.\<close> and \<open>1\<close>,
  that is to 4.
\<close>

theorem C10_trailing_period_accepted:
  "(d \<noteq> [] \<and> list_all (\<lambda>c. type c = Inr st_val) d \<longrightarrow>
      literal (d @ ''.'')
      \<and> eval fp (d @ ''.'') = Inr (from_chars fp (d @ ''.''))
      \<and> from_chars exact_fpu (d @ ''.'') = from_chars exact_fpu d)
   \<and> rpn ''3.+1'' [] = Inr [\<lparr>start = 0, endp = 2, symbol = CHR ''3''\<rparr>,
                          \<lparr>start = 3, endp = 4, symbol = CHR ''1''\<rparr>,
                          \<lparr>start = 2, endp = 3, symbol = CHR ''+''\<rparr>]
   \<and> Part_span ''3.+1'' \<lparr>start = 0, endp = 2, symbol = CHR ''3''\<rparr> = ''3.''
   \<and> eval fp ''3.+1'' = Inr (f_add fp (from_chars fp ''3.'') (from_chars fp ''1''))
   \<and> from_chars exact_fpu ''3.'' = 3
   \<and> eval exact_fpu ''3.+1'' = Inr 4"
proof -
  have "rpn ''3.+1'' [] = Inr [\<lparr>start = 0, endp = 2, symbol = CHR ''3''\<rparr>,
                          \<lparr>start = 3, endp = 4, symbol = CHR ''1''\<rparr>,
                          \<lparr>start = 2, endp = 3, symbol = CHR ''+''\<rparr>]"
    by (simp add: run_simps)
  moreover have "Part_span ''3.+1'' \<lparr>start = 0, endp = 2, symbol = CHR ''3''\<rparr> = ''3.''"
    by (simp add: Part_span_def)
  moreover have "from_chars exact_fpu ''3.'' = 3"
    by (simp add: exact_simps)
  moreover have "eval exact_fpu ''3.+1'' = Inr 4"
    by (simp add: eval_3_period_plus_1) (simp add: exact_simps)
  moreover have "literal (d @ ''.'')
      \<and> eval fp (d @ ''.'') = Inr (from_chars fp (d @ ''.''))
      \<and> from_chars exact_fpu (d @ ''.'') = from_chars exact_fpu d"
    if "d \<noteq> []" "list_all (\<lambda>c. type c = Inr st_val) d"
    using digits_then_period [OF that] eval_literal [of "d @ ''.''" fp]
    by (simp add: exact_fpu_def)
  ultimately show ?thesis
    using eval_3_period_plus_1 [of fp] by blast
qed

theorem C10_trailing_period_accepted_witness:
  "''27'' \<noteq> [] \<and> list_all (\<lambda>c. type c = Inr st_val) ''27''
   \<and> literal ''27.'' \<and> eval exact_fpu ''27.'' = Inr 27"
proof -
  have h: "''27'' \<noteq> [] \<and> list_all (\<lambda>c. type c = Inr st_val) ''27''"
    by (simp add: type_def)
  with C10_trailing_period_accepted [where d = "''27''" and fp = exact_fpu]
  have "literal (''27'' @ ''.'')"
    and "eval exact_fpu (''27'' @ ''.'') = Inr (from_chars exact_fpu (''27'' @ ''.''))"
    by blast+
  then have "literal ''27.''" and "eval exact_fpu ''27.'' = Inr 27"
    by (simp_all add: exact_simps)
  with h show ?thesis by blast
qed

subsection \<open>Where a literal may begin\<close>

text \<open>
  Claim C7 says that a period met by the main scan begins a Number part, as a digit does.
  The \<^verbatim>\<open>switch\<close> of \<^verbatim>\<open>rpn\<close> has the case \<^verbatim>\<open>SymbolType::val\<close> only; a period
  is left to \<^verbatim>\<open>default: abort()\<close>. On \<open>.5\<close> there is no part and no result.
\<close>

theorem C7_counterexample:
  "rpn ''.5'' [] = Inl Abort \<and> eval exact_fpu ''.5'' = Inl Abort"
  by (simp add: run_simps)

text \<open>
  Claim C7, amended. Wherever the main scan meets a digit, the longest run of digits and
  periods from there becomes one Number part and the scan goes on after the run, unless
  the run has more than one period or is followed by a character outside the alphabet,
  which is fatal. Wherever the main scan meets a period, it aborts.
\<close>

theorem C7_digit_starts_literal:
  assumes "i < length s"
  shows "(type (s ! i) = Inr st_val \<longrightarrow>
            rpn_loop s i expr oprs =
              (let run = takeWhile digit_or_period (drop i s); j = i + length run
               in if periods run \<le> 1 \<and> (j < length s \<longrightarrow> type (s ! j) \<noteq> Inl Abort)
                  then rpn_loop s j (expr @ [\<lparr>start = i, endp = j, symbol = s ! i\<rparr>]) oprs
                  else Inl Abort))
       \<and> (type (s ! i) = Inr st_period \<longrightarrow> rpn_loop s i expr oprs = Inl Abort)"
  using assms rpn_loop_val [of i s expr oprs]
  by (simp add: rpn_loop.simps [of s i])

theorem C7_digit_starts_literal_witness:
  "0 < length ''12.5+.5'' \<and> type (''12.5+.5'' ! 0) = Inr st_val
   \<and> rpn_loop ''12.5+.5'' 0 [] [] =
       rpn_loop ''12.5+.5'' 4 [\<lparr>start = 0, endp = 4, symbol = CHR ''1''\<rparr>] []
   \<and> 5 < length ''12.5+.5'' \<and> type (''12.5+.5'' ! 5) = Inr st_period
   \<and> rpn_loop ''12.5+.5'' 5 [\<lparr>start = 0, endp = 4, symbol = CHR ''1''\<rparr>]
        [\<lparr>start = 4, endp = 5, symbol = CHR ''+''\<rparr>] = Inl Abort"
proof -
  have h0: "0 < length ''12.5+.5''" and h5: "5 < length ''12.5+.5''"
    by simp_all
  have t0: "type (''12.5+.5'' ! 0) = Inr st_val" and t5: "type (''12.5+.5'' ! 5) = Inr st_period"
    by (simp_all add: type_def)
  from C7_digit_starts_literal [OF h0, of "[]" "[]"] t0
  have e0: "rpn_loop ''12.5+.5'' 0 [] [] =
       rpn_loop ''12.5+.5'' 4 [\<lparr>start = 0, endp = 4, symbol = CHR ''1''\<rparr>] []"
    by (simp add: digit_or_period_def periods_def type_def numeral_eq_Suc)
  from C7_digit_starts_literal [OF h5] t5
  have e5: "rpn_loop ''12.5+.5'' 5 [\<lparr>start = 0, endp = 4, symbol = CHR ''1''\<rparr>]
        [\<lparr>start = 4, endp = 5, symbol = CHR ''+''\<rparr>] = Inl Abort"
    by blast
  from h0 t0 e0 h5 t5 e5 show ?thesis by blast
qed

subsection \<open>Invariants of the scan\<close>

text \<open>
  A property of index, output and stack that every step of the scan keeps holds of what
  the scan returns.
\<close>

lemma rpn_loop_invariant:
  assumes res: "rpn_loop s i expr oprs = Inr (expr', oprs')"
    and init: "I i expr oprs"
    and blank: "\<And>i expr oprs. i < length s \<Longrightarrow> type (s ! i) = Inr st_blank \<Longrightarrow> I i expr oprs
                 \<Longrightarrow> I (i + 1) expr oprs"
    and opn: "\<And>i expr oprs. i < length s \<Longrightarrow> type (s ! i) = Inr st_open \<Longrightarrow> I i expr oprs
                 \<Longrightarrow> I (i + 1) expr (oprs @ [Part_opr s i])"
    and opr: "\<And>i expr oprs e1 o1. i < length s \<Longrightarrow> type (s ! i) = Inr st_opr
                 \<Longrightarrow> pop_opr (s ! i) expr oprs = Inr (e1, o1) \<Longrightarrow> I i expr oprs
                 \<Longrightarrow> I (i + 1) e1 (o1 @ [Part_opr s i])"
    and cls: "\<And>i expr oprs e1 o1. i < length s \<Longrightarrow> type (s ! i) = Inr st_close
                 \<Longrightarrow> pop_close expr oprs = Inr (e1, o1) \<Longrightarrow> I i expr oprs
                 \<Longrightarrow> I (i + 1) e1 o1"
    and val: "\<And>i expr oprs j. i < length s \<Longrightarrow> type (s ! i) = Inr st_val
                 \<Longrightarrow> j = i + length (takeWhile digit_or_period (drop i s)) \<Longrightarrow> i < j
                 \<Longrightarrow> I i expr oprs
                 \<Longrightarrow> I j (expr @ [\<lparr>start = i, endp = j, symbol = s ! i\<rparr>]) oprs"
  shows "\<exists>k\<ge>length s. I k expr' oprs'"
  using res init
proof (induction "length s - i" arbitrary: i expr oprs rule: less_induct)
  case less
  show ?case
  proof (cases "i < length s")
    case False
    with less.prems have "I i expr' oprs'" and "length s \<le> i"
      by (auto simp: rpn_loop.simps [of s i])
    then show ?thesis by blast
  next
    case True
    show ?thesis
    proof (cases "type (s ! i)")
      case (Inl e)
      with True less.prems(1) show ?thesis by (simp add: rpn_loop.simps [of s i])
    next
      case (Inr t)
      show ?thesis
      proof (cases t)
        case st_null
        with Inr True less.prems(1) show ?thesis by (simp add: rpn_loop.simps [of s i])
      next
        case st_val
        let ?j = "i + length (takeWhile digit_or_period (drop i s))"
        let ?p = "\<lparr>start = i, endp = ?j, symbol = s ! i\<rparr>"
        from True have "drop i s = s ! i # drop (i + 1) s"
          by (simp add: Cons_nth_drop_Suc)
        with st_val Inr have ij: "i < ?j" by (simp add: digit_or_period_def)
        from st_val Inr True less.prems(1)
        have r: "rpn_loop s ?j (expr @ [?p]) oprs = Inr (expr', oprs')"
          by (simp add: rpn_loop_val Let_def split: if_splits)
        have "I ?j (expr @ [?p]) oprs"
          using val [OF True _ refl ij less.prems(2)] st_val Inr by simp
        moreover have "length s - ?j < length s - i"
          using True ij by arith
        ultimately show ?thesis
          using less.hyps r by blast
      next
        case st_opr
        with Inr True less.prems(1) obtain e1 o1
          where p: "pop_opr (s ! i) expr oprs = Inr (e1, o1)"
            and r: "rpn_loop s (i + 1) e1 (o1 @ [Part_opr s i]) = Inr (expr', oprs')"
          by (auto simp: rpn_loop.simps [of s i] split: sum.splits)
        have "I (i + 1) e1 (o1 @ [Part_opr s i])"
          using opr [OF True _ p less.prems(2)] st_opr Inr by simp
        moreover have "length s - (i + 1) < length s - i"
          using True by simp
        ultimately show ?thesis
          using less.hyps r by blast
      next
        case st_open
        with Inr True less.prems(1)
        have r: "rpn_loop s (i + 1) expr (oprs @ [Part_opr s i]) = Inr (expr', oprs')"
          by (simp add: rpn_loop.simps [of s i])
        have "I (i + 1) expr (oprs @ [Part_opr s i])"
          using opn [OF True _ less.prems(2)] st_open Inr by simp
        moreover have "length s - (i + 1) < length s - i"
          using True by simp
        ultimately show ?thesis
          using less.hyps r by blast
      next
        case st_close
        with Inr True less.prems(1) obtain e1 o1
          where p: "pop_close expr oprs = Inr (e1, o1)"
            and r: "rpn_loop s (i + 1) e1 o1 = Inr (expr', oprs')"
          by (auto simp: rpn_loop.simps [of s i] split: sum.splits)
        have "I (i + 1) e1 o1"
          using cls [OF True _ p less.prems(2)] st_close Inr by simp
        moreover have "length s - (i + 1) < length s - i"
          using True by simp
        ultimately show ?thesis
          using less.hyps r by blast
      next
        case st_period
        with Inr True less.prems(1) show ?thesis by (simp add: rpn_loop.simps [of s i])
      next
        case st_blank
        with Inr True less.prems(1)
        have r: "rpn_loop s (i + 1) expr oprs = Inr (expr', oprs')"
          by (simp add: rpn_loop.simps [of s i])
        have "I (i + 1) expr oprs"
          using blank [OF True _ less.prems(2)] st_blank Inr by simp
        moreover have "length s - (i + 1) < length s - i"
          using True by simp
        ultimately show ?thesis
          using less.hyps r by blast
      qed
    qed
  qed
qed


text \<open>What the three inner loops move, and how they fail.\<close>

lemma pop_all_result:
  "pop_all expr oprs = Inr e1 \<longleftrightarrow>
   e1 = expr @ rev oprs \<and> list_all (\<lambda>p. symbol p \<noteq> CHR ''('') oprs"
proof (induction oprs arbitrary: expr rule: rev_induct)
  case Nil
  show ?case by (auto simp: pop_all.simps [of expr "[]"])
next
  case (snoc x xs)
  show ?case
    using snoc [of "expr @ [x]"] by (auto simp: pop_all.simps [of expr "xs @ [x]"])
qed

lemma pop_all_error: "pop_all expr oprs = Inl e \<Longrightarrow> e = AssertionFailed"
proof (induction oprs arbitrary: expr rule: rev_induct)
  case Nil
  then show ?case by (simp add: pop_all.simps [of expr "[]"])
next
  case (snoc x xs)
  then show ?case
    by (auto simp: pop_all.simps [of expr "xs @ [x]"] split: if_splits)
qed

lemma pop_close_result:
  assumes "pop_close expr oprs = Inr (e1, o1)"
  shows "\<exists>m moved. oprs = o1 @ m # moved \<and> symbol m = CHR ''('' \<and> e1 = expr @ rev moved
           \<and> list_all (\<lambda>p. symbol p \<noteq> CHR ''('') moved"
  using assms
proof (induction oprs arbitrary: expr rule: rev_induct)
  case Nil
  then show ?case by (simp add: pop_close.simps [of expr "[]"])
next
  case (snoc x xs)
  show ?case
  proof (cases "symbol x = CHR ''(''")
    case True
    with snoc.prems have "e1 = expr" and "o1 = xs"
      by (simp_all add: pop_close.simps [of expr "xs @ [x]"])
    with True show ?thesis by auto
  next
    case False
    with snoc.prems have "pop_close (expr @ [x]) xs = Inr (e1, o1)"
      by (simp add: pop_close.simps [of expr "xs @ [x]"])
    from snoc.IH [OF this] obtain m moved
      where "xs = o1 @ m # moved" "symbol m = CHR ''(''" "e1 = (expr @ [x]) @ rev moved"
        "list_all (\<lambda>p. symbol p \<noteq> CHR ''('') moved"
      by blast
    with False have "xs @ [x] = o1 @ m # (moved @ [x]) \<and> symbol m = CHR ''(''
        \<and> e1 = expr @ rev (moved @ [x]) \<and> list_all (\<lambda>p. symbol p \<noteq> CHR ''('') (moved @ [x])"
      by simp
    then show ?thesis by blast
  qed
qed

lemma pop_close_error: "pop_close expr oprs = Inl e \<Longrightarrow> e = AssertionFailed"
proof (induction oprs arbitrary: expr rule: rev_induct)
  case Nil
  then show ?case by (simp add: pop_close.simps [of expr "[]"])
next
  case (snoc x xs)
  then show ?case
    by (auto simp: pop_close.simps [of expr "xs @ [x]"] split: if_splits)
qed

lemma pop_opr_result:
  assumes "pop_opr c expr oprs = Inr (e1, o1)"
  shows "\<exists>moved. oprs = o1 @ moved \<and> e1 = expr @ rev moved
           \<and> list_all (\<lambda>p. symbol p \<noteq> CHR ''('') moved"
  using assms
proof (induction oprs arbitrary: expr rule: rev_induct)
  case Nil
  then show ?case by (simp add: pop_opr.simps [of c expr "[]"])
next
  case (snoc x xs)
  show ?case
  proof (cases "pop_opr c (expr @ [x]) xs = Inr (e1, o1) \<and> symbol x \<noteq> CHR ''(''")
    case True
    from snoc.IH [of "expr @ [x]"] True obtain moved
      where "xs = o1 @ moved" "e1 = (expr @ [x]) @ rev moved"
        "list_all (\<lambda>p. symbol p \<noteq> CHR ''('') moved"
      by blast
    with True have "xs @ [x] = o1 @ (moved @ [x]) \<and> e1 = expr @ rev (moved @ [x])
        \<and> list_all (\<lambda>p. symbol p \<noteq> CHR ''('') (moved @ [x])"
      by simp
    then show ?thesis by blast
  next
    case False
    with snoc.prems have "e1 = expr \<and> o1 = xs @ [x]"
      by (auto simp: pop_opr.simps [of c expr "xs @ [x]"] split: if_splits sum.splits)
    then show ?thesis by simp
  qed
qed

lemma prec_error: "prec c = Inl e \<Longrightarrow> e = Abort"
  by (auto simp: prec_def split: if_splits)

lemma associa_error: "associa c = Inl e \<Longrightarrow> e = Abort"
  by (auto simp: associa_def split: if_splits)

lemma pop_opr_error: "pop_opr c expr oprs = Inl e \<Longrightarrow> e = Abort"
proof (induction oprs arbitrary: expr rule: rev_induct)
  case Nil
  then show ?case by (simp add: pop_opr.simps [of c expr "[]"])
next
  case (snoc x xs)
  then show ?case
    by (auto simp: pop_opr.simps [of c expr "xs @ [x]"] split: if_splits sum.splits
        dest: prec_error associa_error)
qed


lemma rpn_loop_error:
  "rpn_loop s i expr oprs = Inl e \<Longrightarrow> e = Abort \<or> e = AssertionFailed"
proof (induction "length s - i" arbitrary: i expr oprs rule: less_induct)
  case less
  show ?case
  proof (cases "i < length s")
    case False
    with less.prems show ?thesis by (simp add: rpn_loop.simps [of s i])
  next
    case True
    then have dec: "length s - (i + 1) < length s - i" by simp
    show ?thesis
    proof (cases "type (s ! i)")
      case (Inl e')
      with True less.prems type_error [of "s ! i" e'] show ?thesis
        by (simp add: rpn_loop.simps [of s i])
    next
      case (Inr t)
      show ?thesis
      proof (cases t)
        case st_val
        let ?j = "i + length (takeWhile digit_or_period (drop i s))"
        from True have "drop i s = s ! i # drop (i + 1) s"
          by (simp add: Cons_nth_drop_Suc)
        with st_val Inr have "i < ?j" by (simp add: digit_or_period_def)
        with True have "length s - ?j < length s - i" by arith
        from less.hyps [OF this] st_val Inr True less.prems show ?thesis
          by (auto simp: rpn_loop_val Let_def split: if_splits)
      next
        case st_opr
        with Inr True less.prems less.hyps [OF dec] show ?thesis
          by (auto simp: rpn_loop.simps [of s i] split: sum.splits dest: pop_opr_error)
      next
        case st_close
        with Inr True less.prems less.hyps [OF dec] show ?thesis
          by (auto simp: rpn_loop.simps [of s i] split: sum.splits dest: pop_close_error)
      qed (use Inr True less.prems less.hyps [OF dec] in
          \<open>auto simp: rpn_loop.simps [of s i]\<close>)
    qed
  qed
qed

lemma rpn_error: "rpn s expr = Inl e \<Longrightarrow> e = Abort \<or> e = AssertionFailed"
  by (auto simp: rpn_def split: sum.splits dest: rpn_loop_error pop_all_error)

subsection \<open>Unbalanced parentheses\<close>

lemma opens_append: "opens (xs @ ys) = opens xs + opens ys"
  by (simp add: opens_def)

lemma opens_none: "list_all (\<lambda>p. symbol p \<noteq> CHR ''('') xs \<Longrightarrow> opens xs = 0"
  by (induction xs) (simp_all add: opens_def)

lemma paren_depth_skip:
  "list_all (\<lambda>c. c \<noteq> CHR ''('' \<and> c \<noteq> CHR '')'') xs \<Longrightarrow> paren_depth (xs @ r) n = paren_depth r n"
  by (induction xs) simp_all

lemma digit_or_period_not_paren: "digit_or_period c \<Longrightarrow> c \<noteq> CHR ''('' \<and> c \<noteq> CHR '')''"
  by (auto simp: digit_or_period_def type_def)

lemma drop_run:
  "drop i s = takeWhile P (drop i s) @ drop (i + length (takeWhile P (drop i s))) s"
proof -
  have "drop (i + length (takeWhile P (drop i s))) s = dropWhile P (drop i s)"
    by (simp add: dropWhile_eq_drop add.commute)
  then show ?thesis by simp
qed

lemma rpn_loop_parens:
  assumes "rpn_loop s 0 expr oprs = Inr (expr', oprs')"
  shows "paren_depth s (opens oprs) = Some (opens oprs')"
proof -
  have "\<exists>k\<ge>length s. paren_depth (drop k s) (opens oprs') = paren_depth s (opens oprs)"
  proof (rule rpn_loop_invariant [where I = "\<lambda>i e o1. paren_depth (drop i s) (opens o1) = paren_depth s (opens oprs)", OF assms], goal_cases)
    case 1
    show ?case by simp
  next
    case (2 i e0 o0)
    from 2(1) have d: "drop i s = s ! i # drop (i + 1) s"
      by (simp add: Cons_nth_drop_Suc)
    from 2(2) have "s ! i \<noteq> CHR ''(''" "s ! i \<noteq> CHR '')''"
      by (auto simp: type_def)
    with 2(3) d show ?case by simp
  next
    case (3 i e0 o0)
    from 3(1) have d: "drop i s = s ! i # drop (i + 1) s"
      by (simp add: Cons_nth_drop_Suc)
    from 3(2) have c: "s ! i = CHR ''(''"
      by (simp add: type_open_iff)
    have "opens (o0 @ [Part_opr s i]) = opens o0 + 1"
      using c by (simp add: opens_def Part_opr_def)
    with 3(3) d c show ?case by simp
  next
    case (4 i e0 o0 e1 o1)
    from 4(1) have d: "drop i s = s ! i # drop (i + 1) s"
      by (simp add: Cons_nth_drop_Suc)
    from 4(2) have c: "s ! i \<noteq> CHR ''(''" "s ! i \<noteq> CHR '')''"
      by (auto simp: type_def)
    from pop_opr_result [OF 4(3)] have "opens o1 = opens o0"
      by (auto simp: opens_append opens_none)
    moreover have "opens (o1 @ [Part_opr s i]) = opens o1"
      using c by (simp add: opens_def Part_opr_def)
    ultimately show ?case using 4(4) d c by simp
  next
    case (5 i e0 o0 e1 o1)
    from 5(1) have d: "drop i s = s ! i # drop (i + 1) s"
      by (simp add: Cons_nth_drop_Suc)
    from 5(2) have c: "s ! i = CHR '')''"
      by (simp add: type_close_iff)
    from pop_close_result [OF 5(3)] obtain m moved
      where "o0 = o1 @ m # moved" "symbol m = CHR ''(''"
        "list_all (\<lambda>p. symbol p \<noteq> CHR ''('') moved"
      by blast
    then have "opens o0 = opens o1 + 1"
      using opens_none [of moved] opens_append [of o1 "m # moved"] opens_append [of "[m]" moved]
      by (simp add: opens_def)
    with 5(4) d c show ?case by simp
  next
    case (6 i e0 o0 j)
    have "list_all (\<lambda>c. c \<noteq> CHR ''('' \<and> c \<noteq> CHR '')'') (takeWhile digit_or_period (drop i s))"
      by (auto simp: list_all_iff dest: set_takeWhileD digit_or_period_not_paren)
    from paren_depth_skip [OF this, of "drop j s" "opens o0"] drop_run [of i s digit_or_period] 6(3,5)
    show ?case by simp
  qed
  then show ?thesis by auto
qed


lemma pop_close_no_open:
  assumes "opens oprs = 0"
  shows "pop_close expr oprs = Inl AssertionFailed"
proof (cases "pop_close expr oprs")
  case (Inl e)
  then show ?thesis using pop_close_error by blast
next
  case (Inr r)
  then obtain e1 o1 where "pop_close expr oprs = Inr (e1, o1)" by (cases r) simp
  from pop_close_result [OF this] obtain m moved
    where "oprs = o1 @ m # moved" "symbol m = CHR ''(''"
    by blast
  then have "0 < opens oprs" by (simp add: opens_def)
  with assms show ?thesis by simp
qed

lemma pop_all_open:
  assumes "0 < opens oprs"
  shows "pop_all expr oprs = Inl AssertionFailed"
proof (cases "pop_all expr oprs")
  case (Inl e)
  then show ?thesis using pop_all_error by blast
next
  case (Inr e1)
  then have "opens oprs = 0" by (simp add: pop_all_result opens_none)
  with assms show ?thesis by simp
qed

lemma rpn_balanced:
  assumes "rpn s [] = Inr expr"
  shows "balanced s"
proof -
  from assms obtain e1 o1 where l: "rpn_loop s 0 [] [] = Inr (e1, o1)"
    and p: "pop_all e1 o1 = Inr expr"
    by (auto simp: rpn_def split: sum.splits)
  from p have "opens o1 = 0" by (simp add: pop_all_result opens_none)
  with rpn_loop_parens [OF l] show ?thesis by (simp add: balanced_def opens_def)
qed

text \<open>
  Claim C5. A close-parenthesis met with no open-parenthesis marker on the stack fails the
  assertion after the pop loop, and a marker left on the stack at the end of the input
  fails the assertion of the last loop. Hence every input whose parentheses do not
  balance has no result: the conversion stops with \<^verbatim>\<open>abort()\<close> or a failed
  assertion, and so does \<^verbatim>\<open>eval\<close>. Both \<open>1+2)\<close> and \<open>(1+2\<close> fail an assertion.
\<close>

theorem C5_unbalanced_parentheses_fatal:
  "(i < length s \<and> s ! i = CHR '')'' \<and> opens oprs = 0
      \<longrightarrow> rpn_loop s i expr oprs = Inl AssertionFailed)
   \<and> (0 < opens oprs \<longrightarrow> pop_all expr oprs = Inl AssertionFailed)
   \<and> (\<not> balanced s \<longrightarrow>
        (\<exists>e. rpn s [] = Inl e \<and> eval fp s = Inl e \<and> (e = Abort \<or> e = AssertionFailed)))
   \<and> eval fp ''1+2)'' = Inl AssertionFailed
   \<and> eval fp ''(1+2'' = Inl AssertionFailed"
proof -
  have a: "rpn_loop s i expr oprs = Inl AssertionFailed"
    if "i < length s" and "s ! i = CHR '')''" and "opens oprs = 0"
    using that pop_close_no_open [of oprs expr]
    by (simp add: rpn_loop.simps [of s i] type_def)
  have c: "\<exists>e. rpn s [] = Inl e \<and> eval fp s = Inl e \<and> (e = Abort \<or> e = AssertionFailed)"
    if "\<not> balanced s"
  proof (cases "rpn s []")
    case (Inl e)
    then show ?thesis using rpn_error [OF Inl] by (simp add: eval_def)
  next
    case (Inr r)
    with that rpn_balanced show ?thesis by blast
  qed
  have "eval fp ''1+2)'' = Inl AssertionFailed" and "eval fp ''(1+2'' = Inl AssertionFailed"
    by (simp_all add: run_simps)
  with a c pop_all_open [of oprs expr] show ?thesis by blast
qed

theorem C5_unbalanced_parentheses_fatal_witness:
  "3 < length ''1+2)'' \<and> ''1+2)'' ! 3 = CHR '')''
   \<and> opens [\<lparr>start = 1, endp = 2, symbol = CHR ''+''\<rparr>] = 0
   \<and> rpn_loop ''1+2)'' 3 [\<lparr>start = 0, endp = 1, symbol = CHR ''1''\<rparr>,
         \<lparr>start = 2, endp = 3, symbol = CHR ''2''\<rparr>]
         [\<lparr>start = 1, endp = 2, symbol = CHR ''+''\<rparr>] = Inl AssertionFailed
   \<and> 0 < opens [\<lparr>start = 0, endp = 1, symbol = CHR ''(''\<rparr>,
         \<lparr>start = 2, endp = 3, symbol = CHR ''+''\<rparr>]
   \<and> pop_all [] [\<lparr>start = 0, endp = 1, symbol = CHR ''(''\<rparr>,
         \<lparr>start = 2, endp = 3, symbol = CHR ''+''\<rparr>] = Inl AssertionFailed
   \<and> \<not> balanced ''(1+2)*3)+(4''
   \<and> eval exact_fpu ''(1+2)*3)+(4'' = Inl AssertionFailed"
proof -
  note t = C5_unbalanced_parentheses_fatal [where i = 3 and s = "''1+2)''"
      and oprs = "[\<lparr>start = 1, endp = 2, symbol = CHR ''+''\<rparr>]"
      and expr = "[\<lparr>start = 0, endp = 1, symbol = CHR ''1''\<rparr>,
         \<lparr>start = 2, endp = 3, symbol = CHR ''2''\<rparr>]"]
  note u = C5_unbalanced_parentheses_fatal [where expr = "[]"
      and oprs = "[\<lparr>start = 0, endp = 1, symbol = CHR ''(''\<rparr>,
         \<lparr>start = 2, endp = 3, symbol = CHR ''+''\<rparr>]"
      and s = "''(1+2)*3)+(4''" and fp = exact_fpu]
  have h1: "3 < length ''1+2)'' \<and> ''1+2)'' ! 3 = CHR '')''
      \<and> opens [\<lparr>start = 1, endp = 2, symbol = CHR ''+''\<rparr>] = 0"
    by (simp add: opens_def)
  have h2: "0 < opens [\<lparr>start = 0, endp = 1, symbol = CHR ''(''\<rparr>,
         \<lparr>start = 2, endp = 3, symbol = CHR ''+''\<rparr>]"
    by (simp add: opens_def)
  have h3: "\<not> balanced ''(1+2)*3)+(4''"
    by (simp add: balanced_def)
  from u h3 obtain e where "eval exact_fpu ''(1+2)*3)+(4'' = Inl e" by blast
  moreover have "eval exact_fpu ''(1+2)*3)+(4'' = Inl AssertionFailed"
    by (simp add: run_simps)
  ultimately show ?thesis using t u h1 h2 h3 by blast
qed

subsection \<open>The parts of the postfix sequence\<close>

lemma rpn_loop_kinds:
  assumes "rpn_loop s i expr oprs = Inr (expr', oprs')"
    and "list_all Number_or_Operator expr" and "list_all Operator_or_open oprs"
  shows "list_all Number_or_Operator expr' \<and> list_all Operator_or_open oprs'"
proof -
  have mv: "list_all Number_or_Operator (rev moved)"
    if "list_all Operator_or_open moved" "list_all (\<lambda>p. symbol p \<noteq> CHR ''('') moved" for moved
    using that by (auto simp: list_all_iff Number_or_Operator_def Operator_or_open_def)
  have "\<exists>k\<ge>length s. list_all Number_or_Operator expr' \<and> list_all Operator_or_open oprs'"
  proof (rule rpn_loop_invariant [where I = "\<lambda>i e o1. list_all Number_or_Operator e \<and> list_all Operator_or_open o1", OF assms(1)], goal_cases)
    case 1
    from assms(2,3) show ?case by simp
  next
    case (2 i e0 o0)
    then show ?case by simp
  next
    case (3 i e0 o0)
    then show ?case
      by (simp add: Operator_or_open_def Part_opr_def type_open_iff)
  next
    case (4 i e0 o0 e1 o1)
    from pop_opr_result [OF 4(3)] obtain moved
      where m: "o0 = o1 @ moved" "e1 = e0 @ rev moved"
        "list_all (\<lambda>p. symbol p \<noteq> CHR ''('') moved"
      by blast
    with 4(4) mv [of moved] have "list_all Number_or_Operator e1 \<and> list_all Operator_or_open o1"
      by simp
    with 4(2) show ?case
      by (simp add: Operator_or_open_def Part_opr_def)
  next
    case (5 i e0 o0 e1 o1)
    from pop_close_result [OF 5(3)] obtain m moved
      where m: "o0 = o1 @ m # moved" "e1 = e0 @ rev moved"
        "list_all (\<lambda>p. symbol p \<noteq> CHR ''('') moved"
      by blast
    with 5(4) mv [of moved] show ?case
      by simp
  next
    case (6 i e0 o0 j)
    then show ?case
      by (simp add: Number_or_Operator_def)
  qed
  then show ?thesis by blast
qed

text \<open>
  Claim C8. When the conversion returns, every part of the postfix sequence is a Number or
  an Operator: none has an open or a close parenthesis as its symbol.
\<close>

theorem C8_postfix_has_no_parentheses:
  assumes "rpn s [] = Inr expr"
  shows "list_all Number_or_Operator expr
       \<and> list_all (\<lambda>p. symbol p \<noteq> CHR ''('' \<and> symbol p \<noteq> CHR '')'') expr"
proof -
  from assms obtain e1 o1 where l: "rpn_loop s 0 [] [] = Inr (e1, o1)"
    and p: "pop_all e1 o1 = Inr expr"
    by (auto simp: rpn_def split: sum.splits)
  from rpn_loop_kinds [OF l] have k: "list_all Number_or_Operator e1" "list_all Operator_or_open o1"
    by simp_all
  from p have "expr = e1 @ rev o1" and "list_all (\<lambda>p. symbol p \<noteq> CHR ''('') o1"
    by (simp_all add: pop_all_result)
  with k have n: "list_all Number_or_Operator expr"
    by (auto simp: list_all_iff Number_or_Operator_def Operator_or_open_def)
  then have "list_all (\<lambda>p. symbol p \<noteq> CHR ''('' \<and> symbol p \<noteq> CHR '')'') expr"
    by (auto simp: list_all_iff Number_or_Operator_def type_def)
  with n show ?thesis by simp
qed

theorem C8_postfix_has_no_parentheses_witness:
  "rpn ''(1+2)*3'' [] =
     Inr [\<lparr>start = 1, endp = 2, symbol = CHR ''1''\<rparr>, \<lparr>start = 3, endp = 4, symbol = CHR ''2''\<rparr>,
          \<lparr>start = 2, endp = 3, symbol = CHR ''+''\<rparr>, \<lparr>start = 6, endp = 7, symbol = CHR ''3''\<rparr>,
          \<lparr>start = 5, endp = 6, symbol = CHR ''*''\<rparr>]
   \<and> list_all Number_or_Operator
        [\<lparr>start = 1, endp = 2, symbol = CHR ''1''\<rparr>, \<lparr>start = 3, endp = 4, symbol = CHR ''2''\<rparr>,
          \<lparr>start = 2, endp = 3, symbol = CHR ''+''\<rparr>, \<lparr>start = 6, endp = 7, symbol = CHR ''3''\<rparr>,
          \<lparr>start = 5, endp = 6, symbol = CHR ''*''\<rparr>]"
proof -
  have r: "rpn ''(1+2)*3'' [] =
     Inr [\<lparr>start = 1, endp = 2, symbol = CHR ''1''\<rparr>, \<lparr>start = 3, endp = 4, symbol = CHR ''2''\<rparr>,
          \<lparr>start = 2, endp = 3, symbol = CHR ''+''\<rparr>, \<lparr>start = 6, endp = 7, symbol = CHR ''3''\<rparr>,
          \<lparr>start = 5, endp = 6, symbol = CHR ''*''\<rparr>]"
    by (simp add: run_simps)
  from r C8_postfix_has_no_parentheses [OF r] show ?thesis by blast
qed

subsection \<open>Conversion and evaluation of well-formed input\<close>

lemma stack_depth_append:
  "stack_depth (xs @ ys) d =
     (case stack_depth xs d of None \<Rightarrow> None | Some d' \<Rightarrow> stack_depth ys d')"
  by (induction xs arbitrary: d) (auto split: sum.splits SymbolType.splits)

lemma applyOperator_opr:
  "type c = Inr st_opr \<Longrightarrow> \<exists>r. applyOperator fp a b c = Inr r"
  by (auto simp: applyOperator_def type_def split: if_splits)

lemma eval_loop_depth:
  assumes "stack_depth ps (length evld) = Some d"
  shows "\<exists>vs. eval_loop fp s ps evld n = Inr vs \<and> length vs = d"
  using assms
proof (induction ps arbitrary: evld n)
  case Nil
  then show ?case by simp
next
  case (Cons p ps)
  show ?case
  proof (cases "type (symbol p)")
    case (Inl e)
    with Cons.prems show ?thesis by simp
  next
    case (Inr t)
    show ?thesis
    proof (cases t)
      case st_val
      with Inr Cons.prems Cons.IH [of "evld @ [computeVal fp s p]" n] show ?thesis
        by simp
    next
      case st_opr
      with Inr Cons.prems have d: "2 \<le> length evld"
        and r: "stack_depth ps (length evld - 1) = Some d"
        by (simp_all split: if_splits)
      from st_opr Inr have "type (symbol p) = Inr st_opr" by simp
      from applyOperator_opr [OF this, of fp "evld ! (length evld - 2)" "last evld"] obtain a
        where a: "applyOperator fp (evld ! (length evld - 2)) (last evld) (symbol p) = Inr a"
        by blast
      from r have "stack_depth ps (length (butlast (evld[length evld - 2 := a]))) = Some d"
        by simp
      from Cons.IH [OF this, of "n - 1"] st_opr Inr d a show ?thesis
        by simp
    qed (use Inr Cons.prems in simp_all)
  qed
qed

lemma Operator_not_open: "Operator p \<Longrightarrow> symbol p \<noteq> CHR ''(''"
  by (auto simp: Operator_def type_def)

lemma opr_prec_associa:
  "type c = Inr st_opr \<Longrightarrow> \<exists>p a. prec c = Inr p \<and> associa c = Inr a"
  by (auto simp: type_def prec_def associa_def split: if_splits)

lemma stack_depth_move:
  assumes "list_all Operator ops" and "stack_depth expr 0 = Some (1 + k + length ops)"
  shows "stack_depth (expr @ rev ops) 0 = Some (1 + k)"
  using assms
proof (induction ops arbitrary: expr rule: rev_induct)
  case Nil
  then show ?case by simp
next
  case (snoc x xs)
  from snoc.prems have "stack_depth (expr @ [x]) 0 = Some (1 + k + length xs)"
    by (simp add: stack_depth_append Operator_def)
  from snoc.IH [OF _ this] snoc.prems(1) show ?case by simp
qed

lemma pop_opr_spec:
  assumes "type c = Inr st_opr" and "below_open base" and "list_all Operator ops"
    and "stack_depth expr 0 = Some (1 + k + length ops)"
  shows "\<exists>expr' ops'. pop_opr c expr (base @ ops) = Inr (expr', base @ ops')
           \<and> list_all Operator ops' \<and> stack_depth expr' 0 = Some (1 + k + length ops')"
  using assms(3,4)
proof (induction ops arbitrary: expr rule: rev_induct)
  case Nil
  from assms(2) have "pop_opr c expr base = Inr (expr, base)"
    by (auto simp: below_open_def pop_opr.simps [of c expr base])
  with Nil show ?case by simp
next
  case (snoc x xs)
  from snoc.prems(1) have x: "Operator x" and xs: "list_all Operator xs" by simp_all
  from x have nx: "symbol x \<noteq> CHR ''(''" by (rule Operator_not_open)
  from x obtain px where px: "prec (symbol x) = Inr px"
    using opr_prec_associa [of "symbol x"] by (auto simp: Operator_def)
  from assms(1) obtain pc ac where pc: "prec c = Inr pc" and ac: "associa c = Inr ac"
    using opr_prec_associa [of c] by blast
  show ?case
  proof (cases "px < pc \<or> (ac = assoc_left \<and> px = pc)")
    case True
    then have u: "pop_opr c expr (base @ xs @ [x]) = pop_opr c (expr @ [x]) (base @ xs)"
      using nx px pc ac by (auto simp: pop_opr.simps [of c expr "base @ xs @ [x]"] butlast_append)
    from snoc.prems(2) x have "stack_depth (expr @ [x]) 0 = Some (1 + k + length xs)"
      by (simp add: stack_depth_append Operator_def)
    from snoc.IH [OF xs this] u show ?thesis by simp
  next
    case False
    then have "pop_opr c expr (base @ xs @ [x]) = Inr (expr, base @ xs @ [x])"
      using nx px pc ac by (auto simp: pop_opr.simps [of c expr "base @ xs @ [x]"])
    with snoc.prems show ?thesis by blast
  qed
qed

lemma pop_close_spec:
  assumes "symbol m = CHR ''(''" and "list_all Operator ops"
  shows "pop_close expr (base @ m # ops) = Inr (expr @ rev ops, base)"
  using assms(2)
proof (induction ops arbitrary: expr rule: rev_induct)
  case Nil
  with assms(1) show ?case by (simp add: pop_close.simps [of expr "base @ [m]"])
next
  case (snoc x xs)
  then have "symbol x \<noteq> CHR ''(''" and xs: "list_all Operator xs"
    by (simp_all add: Operator_not_open)
  then have "pop_close expr (base @ m # xs @ [x]) = pop_close (expr @ [x]) (base @ m # xs)"
    by (simp add: pop_close.simps [of expr "base @ m # xs @ [x]"] butlast_append)
  with snoc.IH [OF xs, of "expr @ [x]"] show ?case by simp
qed

lemma pop_all_spec:
  assumes "list_all Operator ops"
  shows "pop_all expr ops = Inr (expr @ rev ops)"
  using assms by (auto simp: pop_all_result list_all_iff dest: Operator_not_open)


lemma stops_opr: "type c = Inr st_opr \<Longrightarrow> stops (c # r)"
  by (simp add: stops_def digit_or_period_def)

lemma stops_close: "stops (CHR '')'' # r)"
  by (simp add: stops_def digit_or_period_def type_def)

lemma stops_blank: "type c = Inr st_blank \<Longrightarrow> stops (c # r)"
  by (simp add: stops_def digit_or_period_def)

text \<open>
  The scan of a well-formed expression \<open>e\<close> inside an input, started with operators
  \<open>ops\<close> above \<open>base\<close> and an output that leaves as many values as there are
  pending operators: it reaches the end of \<open>e\<close>, \<open>base\<close> is as before, and the
  output leaves one value more than there are pending operators.
\<close>

lemma well_formed_segment:
  assumes "well_formed e"
  shows "stops rest \<Longrightarrow> below_open base \<Longrightarrow> list_all Operator ops
     \<Longrightarrow> stack_depth expr 0 = Some (k + length ops)
     \<Longrightarrow> \<exists>expr' ops'. rpn_at pre (e @ rest) expr (base @ ops) = rpn_at (pre @ e) rest expr' (base @ ops')
           \<and> list_all Operator ops' \<and> stack_depth expr' 0 = Some (1 + k + length ops')"
  using assms
proof (induction e arbitrary: pre rest base ops expr k rule: well_formed.induct)
  case (wf_literal a)
  let ?p = "\<lparr>start = length pre, endp = length pre + length a, symbol = hd a\<rparr>"
  from wf_literal(1) have "type (symbol ?p) = Inr st_val"
    by (simp add: literal_type_hd)
  with wf_literal(5) have "stack_depth (expr @ [?p]) 0 = Some (1 + k + length ops)"
    by (simp add: stack_depth_append)
  with rpn_at_literal [OF wf_literal(1,2), of pre expr "base @ ops"] wf_literal(4)
  show ?case by blast
next
  case (wf_binary a c b)
  from wf_binary.IH(1) [OF stops_opr [OF wf_binary.hyps(2), of "b @ rest"] wf_binary.prems(2,3,4),
      where pre = pre]
  obtain expr1 ops1
    where a: "rpn_at pre (a @ c # b @ rest) expr (base @ ops)
              = rpn_at (pre @ a) (c # b @ rest) expr1 (base @ ops1)"
      and o1: "list_all Operator ops1"
      and d1: "stack_depth expr1 0 = Some (1 + k + length ops1)"
    by auto
  from pop_opr_spec [OF wf_binary.hyps(2) wf_binary.prems(2) o1 d1]
  obtain expr2 ops2
    where p: "pop_opr c expr1 (base @ ops1) = Inr (expr2, base @ ops2)"
      and o2: "list_all Operator ops2"
      and d2: "stack_depth expr2 0 = Some (1 + k + length ops2)"
    by blast
  let ?c = "\<lparr>start = length (pre @ a), endp = length (pre @ a) + 1, symbol = c\<rparr>"
  from rpn_at_opr [OF wf_binary.hyps(2), of "pre @ a" "b @ rest" expr1 "base @ ops1"] p
  have c: "rpn_at (pre @ a) (c # b @ rest) expr1 (base @ ops1)
           = rpn_at (pre @ a @ [c]) (b @ rest) expr2 (base @ (ops2 @ [?c]))"
    by simp
  from o2 wf_binary.hyps(2) have o3: "list_all Operator (ops2 @ [?c])"
    by (simp add: Operator_def)
  from d2 have d3: "stack_depth expr2 0 = Some (k + length (ops2 @ [?c]))"
    by simp
  from wf_binary.IH(2) [OF wf_binary.prems(1,2) o3 d3, where pre = "pre @ a @ [c]"]
  obtain expr' ops'
    where b: "rpn_at (pre @ a @ [c]) (b @ rest) expr2 (base @ (ops2 @ [?c]))
              = rpn_at ((pre @ a @ [c]) @ b) rest expr' (base @ ops')"
      and o': "list_all Operator ops'"
      and d': "stack_depth expr' 0 = Some (1 + k + length ops')"
    by blast
  from a c b have "rpn_at pre ((a @ c # b) @ rest) expr (base @ ops)
      = rpn_at (pre @ a @ c # b) rest expr' (base @ ops')"
    by simp
  with o' d' show ?case by blast
next
  case (wf_parens a)
  let ?o = "\<lparr>start = length pre, endp = length pre + 1, symbol = CHR ''(''\<rparr>"
  have o: "rpn_at pre (CHR ''('' # a @ CHR '')'' # rest) expr (base @ ops)
           = rpn_at (pre @ ''('') (a @ CHR '')'' # rest) expr ((base @ ops @ [?o]) @ [])"
    using rpn_at_open [of "CHR ''(''" pre "a @ CHR '')'' # rest" expr "base @ ops"]
    by (simp add: type_def)
  have bo: "below_open (base @ ops @ [?o])"
    by (simp add: below_open_def)
  from wf_parens.prems(4) have d0: "stack_depth expr 0 = Some ((k + length ops) + length ([] :: Part list))"
    by simp
  from wf_parens.IH [OF stops_close [of rest] bo _ d0, where pre = "pre @ ''(''"]
  obtain expr1 ops1
    where a: "rpn_at (pre @ ''('') (a @ CHR '')'' # rest) expr ((base @ ops @ [?o]) @ [])
              = rpn_at ((pre @ ''('') @ a) (CHR '')'' # rest) expr1 ((base @ ops @ [?o]) @ ops1)"
      and o1: "list_all Operator ops1"
      and d1: "stack_depth expr1 0 = Some (1 + (k + length ops) + length ops1)"
    by auto
  have "pop_close expr1 ((base @ ops) @ ?o # ops1) = Inr (expr1 @ rev ops1, base @ ops)"
    by (rule pop_close_spec) (simp_all add: o1)
  with rpn_at_close [of "CHR '')''" "(pre @ ''('') @ a" rest expr1 "(base @ ops @ [?o]) @ ops1"]
  have c: "rpn_at ((pre @ ''('') @ a) (CHR '')'' # rest) expr1 ((base @ ops @ [?o]) @ ops1)
           = rpn_at (pre @ CHR ''('' # a @ '')'') rest (expr1 @ rev ops1) (base @ ops)"
    by (simp add: type_def)
  from stack_depth_move [OF o1 d1]
  have d': "stack_depth (expr1 @ rev ops1) 0 = Some (1 + k + length ops)"
    by (simp add: add_ac)
  from o a c have "rpn_at pre ((CHR ''('' # a @ '')'') @ rest) expr (base @ ops)
      = rpn_at (pre @ CHR ''('' # a @ '')'') rest (expr1 @ rev ops1) (base @ ops)"
    by simp
  with d' wf_parens.prems(3) show ?case by blast
next
  case (wf_blank_before c a)
  from wf_blank_before.IH [OF wf_blank_before.prems, where pre = "pre @ [c]"]
    rpn_at_blank [OF wf_blank_before.hyps(1), of pre "a @ rest" expr "base @ ops"]
  show ?case by simp
next
  case (wf_blank_after a c)
  from wf_blank_after.IH [OF stops_blank [OF wf_blank_after.hyps(2), of rest]
      wf_blank_after.prems(2,3,4), where pre = pre]
  obtain expr' ops'
    where a: "rpn_at pre (a @ c # rest) expr (base @ ops)
              = rpn_at (pre @ a) (c # rest) expr' (base @ ops')"
      and o': "list_all Operator ops'"
      and d': "stack_depth expr' 0 = Some (1 + k + length ops')"
    by blast
  from a rpn_at_blank [OF wf_blank_after.hyps(2), of "pre @ a" rest expr' "base @ ops'"]
  have "rpn_at pre ((a @ [c]) @ rest) expr (base @ ops)
      = rpn_at (pre @ a @ [c]) rest expr' (base @ ops')"
    by simp
  with o' d' show ?case by blast
qed


text \<open>
  Claim C3 says that a conversion that completes yields a postfix sequence on which no
  operator finds fewer than two values and one value remains. The conversion does not
  check that operands and operators alternate: \<open>1+\<close> converts to the literal and the
  operator, and the operator finds one value; \<open>1 2\<close> converts to two literals, and two
  values remain.
\<close>

theorem C3_counterexample:
  "rpn ''1+'' [] = Inr [\<lparr>start = 0, endp = 1, symbol = CHR ''1''\<rparr>,
                        \<lparr>start = 1, endp = 2, symbol = CHR ''+''\<rparr>]
   \<and> eval_loop exact_fpu ''1+'' [\<lparr>start = 0, endp = 1, symbol = CHR ''1''\<rparr>,
                        \<lparr>start = 1, endp = 2, symbol = CHR ''+''\<rparr>] [] 2 = Inl OutOfBounds
   \<and> rpn ''1 2'' [] = Inr [\<lparr>start = 0, endp = 1, symbol = CHR ''1''\<rparr>,
                         \<lparr>start = 2, endp = 3, symbol = CHR ''2''\<rparr>]
   \<and> eval_loop exact_fpu ''1 2'' [\<lparr>start = 0, endp = 1, symbol = CHR ''1''\<rparr>,
                         \<lparr>start = 2, endp = 3, symbol = CHR ''2''\<rparr>] [] 2 = Inr [1, 2]"
  by (simp add: run_simps) (simp add: exact_simps)

text \<open>
  Claim C3, amended. For every well-formed input the conversion completes, no operator of
  the postfix sequence finds fewer than two values, exactly one value remains, and
  \<^verbatim>\<open>eval\<close> returns it.
\<close>

theorem C3_well_formed_input_evaluates:
  assumes "well_formed s"
  shows "\<exists>expr v. rpn s [] = Inr expr \<and> stack_depth expr 0 = Some 1
           \<and> eval_loop fp s expr [] (length expr) = Inr [v] \<and> eval fp s = Inr v"
proof -
  have "stops []" and "below_open []"
    by (simp_all add: stops_def below_open_def)
  from well_formed_segment [OF assms this, of "[]" "[]" 0 "[]"]
  obtain expr' ops'
    where "rpn_at [] s [] [] = rpn_at s [] expr' ops'" and o: "list_all Operator ops'"
      and d: "stack_depth expr' 0 = Some (1 + 0 + length ops')"
    by auto
  then have r: "rpn s [] = Inr (expr' @ rev ops')"
    by (simp add: rpn_via_rpn_at rpn_at_Nil pop_all_spec)
  from stack_depth_move [OF o d] have d1: "stack_depth (expr' @ rev ops') 0 = Some 1"
    by simp
  then have "stack_depth (expr' @ rev ops') (length ([] :: 'a list)) = Some 1"
    by simp
  from eval_loop_depth [OF this, of fp s "length (expr' @ rev ops')"]
  obtain vs where e: "eval_loop fp s (expr' @ rev ops') [] (length (expr' @ rev ops')) = Inr vs"
    and "length vs = 1"
    by blast
  then obtain v where v: "vs = [v]"
    by (cases vs) simp_all
  from r e v have "eval fp s = Inr v"
    by (simp add: eval_def)
  with r d1 e v show ?thesis by blast
qed

lemma well_formed_example: "well_formed ''(1 + 2)*3''"
proof -
  have l: "literal ''1''" "literal ''2''" "literal ''3''"
    by (simp_all add: literal_def digit_or_period_def periods_def type_def)
  from wf_blank_after [OF wf_literal [OF l(1)], of "CHR '' ''"]
  have a: "well_formed ''1 ''" by (simp add: type_def)
  from wf_blank_before [OF _ wf_literal [OF l(2)], of "CHR '' ''"]
  have b: "well_formed '' 2''" by (simp add: type_def)
  from wf_binary [OF a _ b, of "CHR ''+''"]
  have "well_formed ''1 + 2''" by (simp add: type_def)
  from wf_parens [OF this]
  have p: "well_formed ''(1 + 2)''" by simp
  from wf_binary [OF p _ wf_literal [OF l(3)], of "CHR ''*''"]
  show ?thesis by (simp add: type_def)
qed

theorem C3_well_formed_input_evaluates_witness:
  "well_formed ''(1 + 2)*3'' \<and> eval exact_fpu ''(1 + 2)*3'' = Inr 9"
proof -
  from C3_well_formed_input_evaluates [OF well_formed_example, of exact_fpu]
  obtain v where "eval exact_fpu ''(1 + 2)*3'' = Inr v"
    by blast
  moreover have "eval exact_fpu ''(1 + 2)*3'' = Inr 9"
    by (simp add: run_simps) (simp add: exact_simps)
  ultimately show ?thesis
    using well_formed_example by simp
qed

subsection \<open>Grouping of operators of equal precedence\<close>

lemma Part_span_at0: "Part_span (a @ rest) \<lparr>start = 0, endp = length a, symbol = c\<rparr> = a"
  by (simp add: Part_span_def)







subsection \<open>Decimal literals inside an expression\<close>

lemma literal_in_place:
  assumes "literal a" and "stops rest"
  shows "rpn_loop (pre @ a @ rest) (length pre) expr oprs =
           rpn_loop (pre @ a @ rest) (length pre + length a)
             (expr @ [\<lparr>start = length pre, endp = length pre + length a, symbol = hd a\<rparr>]) oprs"
    and "Part_span (pre @ a @ rest)
           \<lparr>start = length pre, endp = length pre + length a, symbol = hd a\<rparr> = a"
    and "computeVal fp (pre @ a @ rest)
           \<lparr>start = length pre, endp = length pre + length a, symbol = hd a\<rparr> = from_chars fp a"
proof -
  show "rpn_loop (pre @ a @ rest) (length pre) expr oprs =
           rpn_loop (pre @ a @ rest) (length pre + length a)
             (expr @ [\<lparr>start = length pre, endp = length pre + length a, symbol = hd a\<rparr>]) oprs"
    using rpn_at_literal [OF assms, of pre expr oprs] by (simp add: rpn_at_def)
  show "Part_span (pre @ a @ rest)
           \<lparr>start = length pre, endp = length pre + length a, symbol = hd a\<rparr> = a"
    by (rule Part_span_at)
  then show "computeVal fp (pre @ a @ rest)
           \<lparr>start = length pre, endp = length pre + length a, symbol = hd a\<rparr> = from_chars fp a"
    by (simp add: computeVal_def)
qed

lemma eval_two_literals:
  assumes "literal a" and "literal c" and "type o1 = Inr st_opr"
  shows "\<exists>r. applyOperator fp (from_chars fp a) (from_chars fp c) o1 = Inr r
           \<and> eval fp (a @ o1 # c) = Inr r"
proof -
  from applyOperator_opr [OF assms(3), of fp "from_chars fp a" "from_chars fp c"] obtain r
    where r: "applyOperator fp (from_chars fp a) (from_chars fp c) o1 = Inr r" by blast
  let ?s = "a @ o1 # c"
  let ?A = "\<lparr>start = 0, endp = length a, symbol = hd a\<rparr>"
  let ?C = "\<lparr>start = length a + 1, endp = length a + 1 + length c, symbol = hd c\<rparr>"
  let ?p = "\<lparr>start = length a, endp = length a + 1, symbol = o1\<rparr>"
  from assms(3) have n: "o1 \<noteq> CHR ''(''" by (auto simp: type_def)
  have p: "rpn ?s [] = Inr [?A, ?C, ?p]"
    using assms n
    by (simp add: rpn_via_rpn_at rpn_at_literal rpn_at_literal_end rpn_at_opr
        stops_def digit_or_period_def pop_opr.simps pop_all.simps add_ac)
  have sa: "Part_span ?s ?A = a"
    by (rule Part_span_at0)
  have sc: "Part_span ?s ?C = c"
    using Part_span_at [of "a @ [o1]" c "[]" "hd c"] by simp
  have "eval fp ?s = Inr r"
    unfolding eval_def p
    using assms sa sc r
    by (simp add: literal_type_hd computeVal_def)
  with r show ?thesis by blast
qed

lemma is_double_3_5: "is_double 3.5"
proof -
  have "(3.5 :: real) = of_int 7 * 2 powi (- 1)" by simp
  moreover have "\<bar>7 :: int\<bar> < 2 ^ 53" by simp
  ultimately show ?thesis unfolding is_double_def by fastforce
qed

text \<open>
  Claim C6. Wherever the scan stands at a literal inside an input, the part it makes spans
  the characters of that literal and no others, and \<^verbatim>\<open>computeVal\<close> hands exactly these
  to \<^verbatim>\<open>std::from_chars\<close>. So an input that is one literal evaluates to what
  \<^verbatim>\<open>std::from_chars\<close> makes of it, and two literals with an operator between them to
  the operator applied to what it makes of each. With a \<open>from_chars\<close> that is exact
  where a \<^verbatim>\<open>double\<close> can hold the decimal value, a literal of such a value evaluates
  to that value: \<open>3.5\<close> to 3.5. Wherever the scan stands at a digit whose run of digits
  and periods has two periods or more, the conversion aborts; so does the evaluation of
  an input that begins with such a run, \<open>1.2.3\<close> for one.
\<close>

theorem C6_decimal_literals:
  "(literal a \<and> stops rest0 \<longrightarrow>
      rpn_loop (pre @ a @ rest0) (length pre) expr oprs =
        rpn_loop (pre @ a @ rest0) (length pre + length a)
          (expr @ [\<lparr>start = length pre, endp = length pre + length a, symbol = hd a\<rparr>]) oprs
      \<and> Part_span (pre @ a @ rest0)
          \<lparr>start = length pre, endp = length pre + length a, symbol = hd a\<rparr> = a
      \<and> computeVal fp (pre @ a @ rest0)
          \<lparr>start = length pre, endp = length pre + length a, symbol = hd a\<rparr> = from_chars fp a)
   \<and> (literal a \<longrightarrow> eval fp a = Inr (from_chars fp a))
   \<and> (literal a \<and> literal c \<and> type o1 = Inr st_opr \<longrightarrow>
        (\<exists>r. applyOperator fp (from_chars fp a) (from_chars fp c) o1 = Inr r
           \<and> eval fp (a @ o1 # c) = Inr r))
   \<and> (exact_on_doubles rfp \<and> literal a \<and> is_double (from_chars_exact a) \<longrightarrow>
        eval rfp a = Inr (from_chars_exact a))
   \<and> (exact_on_doubles rfp \<longrightarrow> eval rfp ''3.5'' = Inr 3.5)
   \<and> eval fp ''3.5'' = Inr (from_chars fp ''3.5'')
   \<and> eval exact_fpu ''3.5'' = Inr 3.5
   \<and> (i < length s \<and> type (s ! i) = Inr st_val
        \<and> 2 \<le> periods (takeWhile digit_or_period (drop i s))
       \<longrightarrow> rpn_loop s i expr oprs = Inl Abort)
   \<and> (b \<noteq> [] \<and> type (hd b) = Inr st_val \<and> list_all digit_or_period b \<and> 2 \<le> periods b
       \<longrightarrow> eval fp (b @ rest) = Inl Abort)
   \<and> eval fp ''1.2.3'' = Inl Abort"
proof -
  have l: "literal ''3.5''"
    by (simp add: literal_def digit_or_period_def periods_def type_def)
  have v: "from_chars_exact ''3.5'' = 3.5"
    by (simp add: exact_simps)
  have x: "eval rfp t = Inr (from_chars_exact t)"
    if "exact_on_doubles rfp" "literal t" "is_double (from_chars_exact t)" for t
    using that eval_literal [of t rfp] by (simp add: exact_on_doubles_def)
  have x35: "eval rfp ''3.5'' = Inr 3.5" if "exact_on_doubles rfp"
    using x [OF that l] is_double_3_5 v by simp
  have e35: "eval exact_fpu ''3.5'' = Inr 3.5"
    by (simp add: eval_literal [OF l]) (simp add: exact_simps)
  have t3: "eval fp ''1.2.3'' = Inl Abort"
    using eval_two_periods [where a = "''1.2.3''" and rest = "[]" and fp = fp]
    by (simp add: digit_or_period_def periods_def type_def)
  have p: "rpn_loop (pre @ a @ rest0) (length pre) expr oprs =
        rpn_loop (pre @ a @ rest0) (length pre + length a)
          (expr @ [\<lparr>start = length pre, endp = length pre + length a, symbol = hd a\<rparr>]) oprs
      \<and> Part_span (pre @ a @ rest0)
          \<lparr>start = length pre, endp = length pre + length a, symbol = hd a\<rparr> = a
      \<and> computeVal fp (pre @ a @ rest0)
          \<lparr>start = length pre, endp = length pre + length a, symbol = hd a\<rparr> = from_chars fp a"
    if "literal a" "stops rest0"
    using literal_in_place(1) [OF that, where pre = pre and expr = expr and oprs = oprs]
      literal_in_place(2) [OF that, where pre = pre]
      literal_in_place(3) [OF that, where pre = pre and fp = fp]
    by blast
  have two: "\<exists>r. applyOperator fp (from_chars fp a) (from_chars fp c) o1 = Inr r
           \<and> eval fp (a @ o1 # c) = Inr r"
    if "literal a" "literal c" "type o1 = Inr st_opr"
    using that by (rule eval_two_literals)
  from p two x [of a] x35 e35 t3 eval_literal [OF l, of fp] eval_literal [of a fp]
    rpn_loop_two_periods [of i s expr oprs]
    eval_two_periods [where a = b and rest = rest and fp = fp]
  show ?thesis by blast
qed


theorem C6_decimal_literals_witness:
  "literal ''2.5'' \<and> stops '')*3''
   \<and> rpn_loop ''(1+2.5)*3'' 3 [\<lparr>start = 1, endp = 2, symbol = CHR ''1''\<rparr>]
         [\<lparr>start = 0, endp = 1, symbol = CHR ''(''\<rparr>, \<lparr>start = 2, endp = 3, symbol = CHR ''+''\<rparr>]
       = rpn_loop ''(1+2.5)*3'' 6
         [\<lparr>start = 1, endp = 2, symbol = CHR ''1''\<rparr>, \<lparr>start = 3, endp = 6, symbol = CHR ''2''\<rparr>]
         [\<lparr>start = 0, endp = 1, symbol = CHR ''(''\<rparr>, \<lparr>start = 2, endp = 3, symbol = CHR ''+''\<rparr>]
   \<and> Part_span ''(1+2.5)*3'' \<lparr>start = 3, endp = 6, symbol = CHR ''2''\<rparr> = ''2.5''
   \<and> computeVal exact_fpu ''(1+2.5)*3'' \<lparr>start = 3, endp = 6, symbol = CHR ''2''\<rparr> = 2.5
   \<and> eval exact_fpu ''2.5'' = Inr 2.5
   \<and> literal ''0.25'' \<and> type (CHR ''-'') = Inr st_opr
   \<and> eval exact_fpu ''2.5-0.25'' = Inr 2.25
   \<and> exact_on_doubles exact_fpu \<and> is_double (from_chars_exact ''2.5'')
   \<and> 3 < length ''1+(2.5.1*3)'' \<and> type (''1+(2.5.1*3)'' ! 3) = Inr st_val
   \<and> 2 \<le> periods (takeWhile digit_or_period (drop 3 ''1+(2.5.1*3)''))
   \<and> rpn_loop ''1+(2.5.1*3)'' 3 [] [] = Inl Abort
   \<and> ''0.1.'' \<noteq> [] \<and> type (hd ''0.1.'') = Inr st_val \<and> list_all digit_or_period ''0.1.''
   \<and> 2 \<le> periods ''0.1.'' \<and> eval exact_fpu (''0.1.'' @ ''+2'') = Inl Abort"
proof -
  let ?E = "[\<lparr>start = 1, endp = 2, symbol = CHR ''1''\<rparr>]"
  let ?O = "[\<lparr>start = 0, endp = 1, symbol = CHR ''(''\<rparr>, \<lparr>start = 2, endp = 3, symbol = CHR ''+''\<rparr>]"
  note t = C6_decimal_literals [where a = "''2.5''" and ?rest0.0 = "'')*3''" and pre = "''(1+''"
      and expr = ?E and oprs = ?O and fp = exact_fpu and c = "''0.25''" and ?o1.0 = "CHR ''-''"
      and rfp = exact_fpu]
  note u = C6_decimal_literals [where i = 3 and s = "''1+(2.5.1*3)''" and expr = "[]" and oprs = "[]"
      and b = "''0.1.''" and rest = "''+2''" and fp = exact_fpu]
  have l: "literal ''2.5''" "literal ''0.25''"
    by (simp_all add: literal_def digit_or_period_def periods_def type_def)
  have st: "stops '')*3''"
    by (simp add: stops_def digit_or_period_def type_def)
  have ty: "type (CHR ''-'') = Inr st_opr"
    by (simp add: type_def)
  have x: "exact_on_doubles exact_fpu"
    by (simp add: exact_on_doubles_def exact_fpu_def)
  have "(2.5 :: real) = of_int 5 * 2 powi (- 1)" by simp
  moreover have "\<bar>5 :: int\<bar> < 2 ^ 53" by simp
  ultimately have "is_double 2.5" unfolding is_double_def by fastforce
  then have d: "is_double (from_chars_exact ''2.5'')"
    by (simp add: exact_simps)
  from t l(1) st
  have p1: "rpn_loop ''(1+2.5)*3'' 3 ?E ?O
       = rpn_loop ''(1+2.5)*3'' 6 (?E @ [\<lparr>start = 3, endp = 6, symbol = CHR ''2''\<rparr>]) ?O"
    and p2: "Part_span ''(1+2.5)*3'' \<lparr>start = 3, endp = 6, symbol = CHR ''2''\<rparr> = ''2.5''"
    and p3: "computeVal exact_fpu ''(1+2.5)*3'' \<lparr>start = 3, endp = 6, symbol = CHR ''2''\<rparr>
        = from_chars exact_fpu ''2.5''"
    by (simp_all add: numeral_eq_Suc)
  from p3 have p3': "computeVal exact_fpu ''(1+2.5)*3'' \<lparr>start = 3, endp = 6, symbol = CHR ''2''\<rparr> = 2.5"
    by (simp add: exact_simps)
  from t x l(1) d have "eval exact_fpu ''2.5'' = Inr (from_chars_exact ''2.5'')" by blast
  then have e1: "eval exact_fpu ''2.5'' = Inr 2.5" by (simp add: exact_simps)
  from t l ty obtain r
    where "applyOperator exact_fpu (from_chars exact_fpu ''2.5'') (from_chars exact_fpu ''0.25'') (CHR ''-'') = Inr r"
      and e2: "eval exact_fpu (''2.5'' @ CHR ''-'' # ''0.25'') = Inr r"
    by blast
  then have "r = 2.25"
    by (auto simp: applyOperator_def exact_simps)
  with e2 have e2': "eval exact_fpu ''2.5-0.25'' = Inr 2.25" by simp
  have h2: "3 < length ''1+(2.5.1*3)'' \<and> type (''1+(2.5.1*3)'' ! 3) = Inr st_val
       \<and> 2 \<le> periods (takeWhile digit_or_period (drop 3 ''1+(2.5.1*3)''))"
    by (simp add: digit_or_period_def periods_def type_def)
  have h3: "''0.1.'' \<noteq> [] \<and> type (hd ''0.1.'') = Inr st_val \<and> list_all digit_or_period ''0.1.''
       \<and> 2 \<le> periods ''0.1.''"
    by (simp add: digit_or_period_def periods_def type_def)
  from u h2 have e3: "rpn_loop ''1+(2.5.1*3)'' 3 [] [] = Inl Abort" by blast
  from u h3 have e4: "eval exact_fpu (''0.1.'' @ ''+2'') = Inl Abort" by blast
  from p1 have p1': "rpn_loop ''(1+2.5)*3'' 3 ?E ?O
       = rpn_loop ''(1+2.5)*3'' 6
         [\<lparr>start = 1, endp = 2, symbol = CHR ''1''\<rparr>, \<lparr>start = 3, endp = 6, symbol = CHR ''2''\<rparr>] ?O"
    by simp
  from l st p1' p2 p3' e1 ty e2' x d h2 e3 h3 e4 show ?thesis by blast
qed

end
